theory Spec2Isabelle
  imports Main "HOL-Library.Finite_Map" "HOL-Library.Multiset"
begin

section \<open>The user store of the HTTP API server example\<close>

text \<open>
  The program is the example \<^verbatim>\<open>HTTP API Server with Variable Management\<close> of
  \<^verbatim>\<open>src/variables/go_variables_complete.md\<close>: a \<^verbatim>\<open>Server\<close> holding a
  \<^verbatim>\<open>map[int]*User\<close> and a counter \<^verbatim>\<open>nextID\<close>, with the methods
  \<^verbatim>\<open>createUser\<close>, \<^verbatim>\<open>getUser\<close>, \<^verbatim>\<open>getAllUsers\<close>, \<^verbatim>\<open>updateUser\<close> and
  \<^verbatim>\<open>getStats\<close>. Every method takes the server's mutex for its whole body, so each
  call is one atomic step on the shared state and a concurrent execution is some
  sequence of such steps (the order in which the calls complete). The mutex itself is
  therefore not a field of the model.
\<close>

subsection \<open>Go values: int, time, pointers, panics\<close>

text \<open>
  Go's \<^verbatim>\<open>int\<close> is taken as 64 bits wide, an integer with the wrap-around of
  \<^verbatim>\<open>++\<close> written out.
\<close>

definition max_int :: int where
  "max_int = 2 ^ 63 - 1"

definition int_wrap :: "int \<Rightarrow> int" where
  "int_wrap x = (x + 2 ^ 63) mod 2 ^ 64 - 2 ^ 63"

text \<open>
  A \<^verbatim>\<open>time.Time\<close> obtained from \<^verbatim>\<open>time.Now()\<close> carries a reading of the
  process's monotonic clock, which is what Go compares two such values by; the model
  keeps that reading, in nanoseconds. A \<^verbatim>\<open>time.Duration\<close> is an int64 number of
  nanoseconds, and \<^verbatim>\<open>Time.Sub\<close> saturates at its bounds.
\<close>

type_synonym time = int
type_synonym duration = int

definition Second :: duration where
  "Second = 1000000000"

definition time_Sub :: "time \<Rightarrow> time \<Rightarrow> duration" where
  "time_Sub t u = max (- (2 ^ 63)) (min (2 ^ 63 - 1) (t - u))"

text \<open>
  A \<^verbatim>\<open>*User\<close> is \<^verbatim>\<open>nil\<close> or the address of a \<^verbatim>\<open>User\<close> object on the heap.
  Dereferencing \<^verbatim>\<open>nil\<close> panics ("invalid memory address or nil pointer
  dereference").
\<close>

datatype ptr = Nil | Ref nat

datatype panic = NilDereference

subsection \<open>The structs\<close>

record User =
  ID :: int
  Name :: string
  Email :: string
  Status :: string
  CreatedAt :: time
  UpdatedAt :: time

record Server =
  users :: "(int, ptr) fmap"
  nextID :: int
  host :: string
  port :: int
  timeout :: duration
  started :: time

record ServerStats =
  TotalUsers :: int
  ActiveUsers :: int
  InactiveUsers :: int
  Uptime :: duration
  StartedAt :: time

text \<open>
  The state of the running process, as far as the store is concerned: the heap of
  \<^verbatim>\<open>User\<close> objects allocated so far (an address is an index into it; objects are
  never freed while reachable, and the garbage collector is not observable), the
  monotonic clock, and the one \<^verbatim>\<open>Server\<close>.
\<close>

record world =
  heap :: "User list"
  clock :: time
  server :: Server

subsection \<open>The environment: clock, allocation, map iteration\<close>

text \<open>
  \<^verbatim>\<open>time.Now()\<close>: the clock has advanced by some amount \<open>d\<close> since it was last read
  (the environment's choice, never negative), and the new reading is returned.
\<close>

definition time_Now :: "nat \<Rightarrow> world \<Rightarrow> time \<times> world" where
  "time_Now d w = (clock w + int d, w\<lparr>clock := clock w + int d\<rparr>)"

text \<open>
  \<^verbatim>\<open>&User{...}\<close>, or \<^verbatim>\<open>var user User\<close> followed by \<^verbatim>\<open>&user\<close>: a new object,
  at an address no existing pointer holds.
\<close>

definition new_User :: "User \<Rightarrow> world \<Rightarrow> ptr \<times> world" where
  "new_User u w = (Ref (length (heap w)), w\<lparr>heap := heap w @ [u]\<rparr>)"

text \<open>
  Reading \<^verbatim>\<open>*p\<close>: \<open>None\<close> where Go panics. An address beyond the heap cannot arise
  in Go; the model treats it like \<^verbatim>\<open>nil\<close>.
\<close>

fun load :: "User list \<Rightarrow> ptr \<Rightarrow> User option" where
  "load h Nil = None"
| "load h (Ref a) = (if a < length h then Some (h ! a) else None)"

text \<open>Reading a field, \<^verbatim>\<open>p.f\<close>, and assigning to one, \<^verbatim>\<open>p.f = v\<close>.\<close>

definition field_get :: "ptr \<Rightarrow> (User \<Rightarrow> 'a) \<Rightarrow> world \<Rightarrow> panic + 'a" where
  "field_get p f w = (case load (heap w) p of None \<Rightarrow> Inl NilDereference | Some u \<Rightarrow> Inr (f u))"

fun field_set :: "ptr \<Rightarrow> (User \<Rightarrow> User) \<Rightarrow> world \<Rightarrow> panic + world" where
  "field_set Nil f w = Inl NilDereference"
| "field_set (Ref a) f w =
     (if a < length (heap w) then Inr (w\<lparr>heap := (heap w)[a := f (heap w ! a)]\<rparr>)
      else Inl NilDereference)"

text \<open>
  Sequencing: a panic ends the call (the deferred \<^verbatim>\<open>Unlock\<close> releases the mutex). In
  each method below a panic can only come before the method's first write, so the
  store is then as it was before the call.
\<close>

fun and_then :: "panic + 'a \<Rightarrow> ('a \<Rightarrow> panic + 'b) \<Rightarrow> panic + 'b" where
  "and_then (Inl e) f = Inl e"
| "and_then (Inr x) f = f x"

text \<open>
  \<^verbatim>\<open>for _, user := range s.users\<close>: Go leaves the order in which a map is visited
  unspecified, and it may differ from one loop to the next. The model takes the
  runtime's choice as a ranking of the keys: the entries are visited by increasing
  rank (keys of equal rank by increasing key). Every ranking gives an enumeration of
  the map's entries, each once, and every such enumeration comes from some ranking
  (lemmas \<open>range_map_entries\<close> and \<open>range_map_complete\<close> below).
\<close>

definition range_map :: "(int, ptr) fmap \<Rightarrow> (int \<Rightarrow> nat) \<Rightarrow> (int \<times> ptr) list" where
  "range_map m rank = sort_key (\<lambda>e. rank (fst e)) (sorted_list_of_fmap m)"

text \<open>The ranking that visits the keys in the order of a given list: a key's position in it.\<close>

fun position :: "int list \<Rightarrow> int \<Rightarrow> nat" where
  "position [] k = 0"
| "position (x # xs) k = (if x = k then 0 else Suc (position xs k))"

subsection \<open>The methods of the server\<close>

text \<open>
  \<^verbatim>\<open>main\<close> calls \<^verbatim>\<open>NewServer\<close> before any \<^verbatim>\<open>User\<close> exists, so the heap is empty;
  \<open>now\<close> is the reading that \<^verbatim>\<open>time.Now()\<close> returns.
\<close>

definition NewServer :: "string \<Rightarrow> int \<Rightarrow> time \<Rightarrow> world" where
  "NewServer h p now =
     \<lparr>heap = [], clock = now,
      server = \<lparr>users = fmempty, nextID = 1, host = h, port = p,
                timeout = 30 * Second, started = now\<rparr>\<rparr>"

definition set_nextID :: "int \<Rightarrow> world \<Rightarrow> world" where
  "set_nextID n w = w\<lparr>server := (server w)\<lparr>nextID := n\<rparr>\<rparr>"

definition set_users :: "(int, ptr) fmap \<Rightarrow> world \<Rightarrow> world" where
  "set_users m w = w\<lparr>server := (server w)\<lparr>users := m\<rparr>\<rparr>"

definition createUser :: "ptr \<Rightarrow> nat \<Rightarrow> nat \<Rightarrow> world \<Rightarrow> panic + (ptr \<times> world)" where
  "createUser user d1 d2 w =
     and_then (field_set user (\<lambda>u. u\<lparr>ID := nextID (server w)\<rparr>) w) (\<lambda>w1.
     let w2 = set_nextID (int_wrap (nextID (server w1) + 1)) w1;
         (t1, w3) = time_Now d1 w2 in
     and_then (field_set user (\<lambda>u. u\<lparr>CreatedAt := t1\<rparr>) w3) (\<lambda>w4.
     let (t2, w5) = time_Now d2 w4 in
     and_then (field_set user (\<lambda>u. u\<lparr>UpdatedAt := t2\<rparr>) w5) (\<lambda>w6.
     and_then (field_get user Status w6) (\<lambda>status.
     and_then (if status = '''' then field_set user (\<lambda>u. u\<lparr>Status := ''active''\<rparr>) w6
               else Inr w6) (\<lambda>w7.
     and_then (field_get user ID w7) (\<lambda>uid.
     Inr (user, set_users (fmupd uid user (users (server w7))) w7)))))))"

text \<open>
  \<^verbatim>\<open>seedData\<close> builds the slice \<^verbatim>\<open>sampleUsers\<close> of pointers to three new objects
  (fields not given are zero) and calls \<^verbatim>\<open>createUser\<close> on each; \<open>tick i\<close> is how far
  the clock advances before each of the two readings of the \<open>i\<close>-th call.
\<close>

definition sampleUsers :: "User list" where
  "sampleUsers =
     [\<lparr>ID = 0, Name = ''Alice Johnson'', Email = ''alice@company.com'', Status = ''active'',
       CreatedAt = 0, UpdatedAt = 0\<rparr>,
      \<lparr>ID = 0, Name = ''Bob Smith'', Email = ''bob@company.com'', Status = ''active'',
       CreatedAt = 0, UpdatedAt = 0\<rparr>,
      \<lparr>ID = 0, Name = ''Carol Davis'', Email = ''carol@company.com'', Status = ''inactive'',
       CreatedAt = 0, UpdatedAt = 0\<rparr>]"

fun new_Users :: "User list \<Rightarrow> world \<Rightarrow> ptr list \<times> world" where
  "new_Users [] w = ([], w)"
| "new_Users (u # us) w =
     (let (p, w1) = new_User u w; (ps, w2) = new_Users us w1 in (p # ps, w2))"

fun seed_loop :: "ptr list \<Rightarrow> (nat \<Rightarrow> nat \<times> nat) \<Rightarrow> nat \<Rightarrow> world \<Rightarrow> panic + world" where
  "seed_loop [] tick i w = Inr w"
| "seed_loop (user # rest) tick i w =
     and_then (createUser user (fst (tick i)) (snd (tick i)) w) (\<lambda>(created, w1).
     seed_loop rest tick (Suc i) w1)"

definition seedData :: "(nat \<Rightarrow> nat \<times> nat) \<Rightarrow> world \<Rightarrow> panic + world" where
  "seedData tick w = (let (ps, w1) = new_Users sampleUsers w in seed_loop ps tick 0 w1)"

definition getUser :: "int \<Rightarrow> world \<Rightarrow> (ptr \<times> bool) \<times> world" where
  "getUser uid w =
     (case fmlookup (users (server w)) uid of
        None \<Rightarrow> ((Nil, False), w)
      | Some user \<Rightarrow> ((user, True), w))"

definition getAllUsers :: "(int \<Rightarrow> nat) \<Rightarrow> world \<Rightarrow> ptr list \<times> world" where
  "getAllUsers rank w =
     (foldl (\<lambda>us e. us @ [snd e]) [] (range_map (users (server w)) rank), w)"

definition updateUser :: "int \<Rightarrow> ptr \<Rightarrow> nat \<Rightarrow> world \<Rightarrow> panic + ((ptr \<times> bool) \<times> world)" where
  "updateUser uid updates d w =
     (case fmlookup (users (server w)) uid of
        None \<Rightarrow> Inr ((Nil, False), w)
      | Some user \<Rightarrow>
          and_then (field_get updates Name w) (\<lambda>name.
          and_then (if name \<noteq> '''' then field_set user (\<lambda>u. u\<lparr>Name := name\<rparr>) w
                    else Inr w) (\<lambda>w1.
          and_then (field_get updates Email w1) (\<lambda>email.
          and_then (if email \<noteq> '''' then field_set user (\<lambda>u. u\<lparr>Email := email\<rparr>) w1
                    else Inr w1) (\<lambda>w2.
          and_then (field_get updates Status w2) (\<lambda>status.
          and_then (if status \<noteq> '''' then field_set user (\<lambda>u. u\<lparr>Status := status\<rparr>) w2
                    else Inr w2) (\<lambda>w3.
          let (now, w4) = time_Now d w3 in
          and_then (field_set user (\<lambda>u. u\<lparr>UpdatedAt := now\<rparr>) w4) (\<lambda>w5.
          Inr ((user, True), w5)))))))))"

text \<open>The loop of \<^verbatim>\<open>getStats\<close>, on the users in the order the map is visited.\<close>

fun count_loop :: "User list \<Rightarrow> ptr list \<Rightarrow> int \<times> int \<Rightarrow> panic + (int \<times> int)" where
  "count_loop h [] (activeCount, inactiveCount) = Inr (activeCount, inactiveCount)"
| "count_loop h (user # rest) (activeCount, inactiveCount) =
     (case load h user of
        None \<Rightarrow> Inl NilDereference
      | Some u \<Rightarrow>
          if Status u = ''active''
          then count_loop h rest (int_wrap (activeCount + 1), inactiveCount)
          else count_loop h rest (activeCount, int_wrap (inactiveCount + 1)))"

text \<open>\<^verbatim>\<open>len(s.users)\<close>, the number of entries of the map.\<close>

definition len_users :: "world \<Rightarrow> int" where
  "len_users w = int (fcard (fmdom (users (server w))))"

definition getStats :: "(int \<Rightarrow> nat) \<Rightarrow> nat \<Rightarrow> world \<Rightarrow> panic + (ServerStats \<times> world)" where
  "getStats rank d w =
     and_then (count_loop (heap w) (map snd (range_map (users (server w)) rank)) (0, 0))
       (\<lambda>(activeCount, inactiveCount).
     let (now, w1) = time_Now d w in
     Inr (\<lparr>TotalUsers = len_users w, ActiveUsers = activeCount,
           InactiveUsers = inactiveCount,
           Uptime = time_Sub now (started (server w)),
           StartedAt = started (server w)\<rparr>, w1))"

subsection \<open>The operations as the callers use them\<close>

text \<open>
  Both callers of \<^verbatim>\<open>createUser\<close> pass a new object: \<^verbatim>\<open>seedData\<close> the
  \<^verbatim>\<open>&User{...}\<close> literals of \<^verbatim>\<open>sampleUsers\<close>, \<^verbatim>\<open>handleCreateUser\<close> the address
  of its local \<^verbatim>\<open>var user User\<close>, filled from the request. \<open>Create\<close> is that call:
  the candidate is a value, and the store receives a pointer to a new copy of it.
  In the same way \<^verbatim>\<open>handleUpdateUser\<close> passes the address of its local
  \<^verbatim>\<open>var updates User\<close> to \<^verbatim>\<open>updateUser\<close>.
\<close>

definition Create :: "User \<Rightarrow> nat \<Rightarrow> nat \<Rightarrow> world \<Rightarrow> panic + (ptr \<times> world)" where
  "Create candidate d1 d2 w = (let (user, w1) = new_User candidate w in createUser user d1 d2 w1)"

definition Update :: "int \<Rightarrow> User \<Rightarrow> nat \<Rightarrow> world \<Rightarrow> panic + ((ptr \<times> bool) \<times> world)" where
  "Update uid changes d w = (let (updates, w1) = new_User changes w in updateUser uid updates d w1)"

text \<open>
  A run of the store: the calls in the order in which they complete, each with the
  choices the environment makes during it. \<open>run\<close> collects the ids of the entities
  that the \<open>Create\<close> calls return.
\<close>

datatype op =
    OpCreate User nat nat
  | OpGet int
  | OpList "int \<Rightarrow> nat"
  | OpUpdate int User nat
  | OpStats "int \<Rightarrow> nat" nat

fun returned_id :: "ptr \<Rightarrow> world \<Rightarrow> int list" where
  "returned_id p w = (case load (heap w) p of None \<Rightarrow> [] | Some u \<Rightarrow> [ID u])"

fun apply_op :: "op \<Rightarrow> world \<Rightarrow> panic + (int list \<times> world)" where
  "apply_op (OpCreate c d1 d2) w =
     and_then (Create c d1 d2 w) (\<lambda>(p, w'). Inr (returned_id p w', w'))"
| "apply_op (OpGet uid) w = Inr ([], snd (getUser uid w))"
| "apply_op (OpList rank) w = Inr ([], snd (getAllUsers rank w))"
| "apply_op (OpUpdate uid c d) w = and_then (Update uid c d w) (\<lambda>(r, w'). Inr ([], w'))"
| "apply_op (OpStats rank d) w = and_then (getStats rank d w) (\<lambda>(st, w'). Inr ([], w'))"

fun run :: "op list \<Rightarrow> world \<Rightarrow> panic + (int list \<times> world)" where
  "run [] w = Inr ([], w)"
| "run (x # xs) w =
     and_then (apply_op x w) (\<lambda>(ids, w1).
     and_then (run xs w1) (\<lambda>(ids', w2). Inr (ids @ ids', w2)))"

fun is_create :: "op \<Rightarrow> bool" where
  "is_create (OpCreate c d1 d2) = True"
| "is_create x = False"

definition creates :: "op list \<Rightarrow> nat" where
  "creates ops = length (filter is_create ops)"

subsection \<open>Invariants of the store\<close>

text \<open>
  An entry \<open>k \<mapsto> p\<close> of the map is in order when \<open>p\<close> points to an entity whose
  \<^verbatim>\<open>ID\<close> is \<open>k\<close>, the id is positive and below the counter, and the entity was last
  touched no later than now.
\<close>

definition entry_ok :: "world \<Rightarrow> int \<Rightarrow> ptr \<Rightarrow> bool" where
  "entry_ok w k p =
     (case load (heap w) p of
        None \<Rightarrow> False
      | Some u \<Rightarrow> ID u = k \<and> 1 \<le> k \<and> k < nextID (server w) \<and> UpdatedAt u \<le> clock w)"

definition store_inv :: "world \<Rightarrow> bool" where
  "store_inv w \<longleftrightarrow> fmpred (entry_ok w) (users (server w)) \<and> 1 \<le> nextID (server w)"

text \<open>
  Go is memory safe: a pointer that is not \<^verbatim>\<open>nil\<close> holds the address of an object
  that exists. \<open>heap_closed\<close> says so of the pointers the map holds.
\<close>

fun allocated :: "world \<Rightarrow> ptr \<Rightarrow> bool" where
  "allocated w Nil = True"
| "allocated w (Ref a) = (a < length (heap w))"

definition heap_closed :: "world \<Rightarrow> bool" where
  "heap_closed w \<longleftrightarrow> fmpred (\<lambda>k p. allocated w p) (users (server w))"

text \<open>
  The store itself never puts \<^verbatim>\<open>nil\<close> into the map (\<^verbatim>\<open>createUser\<close> writes through
  the pointer before it stores it): \<open>users_loaded\<close> says that every pointer the map
  holds points to an entity.
\<close>

definition users_loaded :: "world \<Rightarrow> bool" where
  "users_loaded w \<longleftrightarrow> fmpred (\<lambda>k p. load (heap w) p \<noteq> None) (users (server w))"

text \<open>The statuses of the stored entities, by increasing id.\<close>

definition status_of :: "User list \<Rightarrow> ptr \<Rightarrow> string" where
  "status_of h p = (case load h p of None \<Rightarrow> [] | Some u \<Rightarrow> Status u)"

definition statuses :: "world \<Rightarrow> string list" where
  "statuses w = map (\<lambda>e. status_of (heap w) (snd e)) (sorted_list_of_fmap (users (server w)))"

subsection \<open>The statistics the specification describes\<close>

text \<open>
  The specification's \<^verbatim>\<open>StatsAggregator.Compute\<close>, in its words: "tabulates counts
  keyed by each distinct status value observed (mapping from status string to count,
  all distinct statuses present in the snapshot, no implicit zero-entries for statuses
  not observed)". \<open>spec_status_counts\<close> is that table, for the statuses of a snapshot.
  \<open>reported_status_counts\<close> is what \<^verbatim>\<open>getStats\<close> reports per status: the two
  counters of its \<^verbatim>\<open>ServerStats\<close>, under the status each is named after.
\<close>

definition spec_status_counts :: "string list \<Rightarrow> (string \<times> int) list" where
  "spec_status_counts ss = map (\<lambda>s. (s, int (count_list ss s))) (remdups ss)"

definition reported_status_counts :: "ServerStats \<Rightarrow> (string \<times> int) list" where
  "reported_status_counts st = [(''active'', ActiveUsers st), (''inactive'', InactiveUsers st)]"

subsection \<open>Example states\<close>

definition alice :: User where
  "alice = \<lparr>ID = 0, Name = ''Alice Johnson'', Email = ''alice@company.com'',
            Status = ''active'', CreatedAt = 0, UpdatedAt = 0\<rparr>"

definition bob :: User where
  "bob = \<lparr>ID = 0, Name = ''Bob Smith'', Email = ''bob@company.com'',
          Status = '''', CreatedAt = 0, UpdatedAt = 0\<rparr>"

definition dan :: User where
  "dan = \<lparr>ID = 0, Name = ''Dan Brown'', Email = ''dan@company.com'',
          Status = ''pending'', CreatedAt = 0, UpdatedAt = 0\<rparr>"

definition set_inactive :: User where
  "set_inactive = \<lparr>ID = 0, Name = '''', Email = '''', Status = ''inactive'',
                   CreatedAt = 0, UpdatedAt = 0\<rparr>"

definition no_changes :: User where
  "no_changes = \<lparr>ID = 0, Name = '''', Email = '''', Status = '''',
                 CreatedAt = 0, UpdatedAt = 0\<rparr>"

definition world0 :: world where
  "world0 = NewServer ''localhost'' 8080 100"

text \<open>\<open>world1\<close>: after \<open>Create alice 1 1\<close> on \<open>world0\<close>.\<close>

definition world1 :: world where
  "world1 =
     \<lparr>heap = [\<lparr>ID = 1, Name = ''Alice Johnson'', Email = ''alice@company.com'',
               Status = ''active'', CreatedAt = 101, UpdatedAt = 102\<rparr>],
      clock = 102,
      server = \<lparr>users = fmupd 1 (Ref 0) fmempty, nextID = 2, host = ''localhost'',
                port = 8080, timeout = 30 * Second, started = 100\<rparr>\<rparr>"

text \<open>\<open>world2\<close>: after \<open>Create bob 1 1\<close> on \<open>world1\<close>.\<close>

definition world2 :: world where
  "world2 =
     \<lparr>heap = [\<lparr>ID = 1, Name = ''Alice Johnson'', Email = ''alice@company.com'',
               Status = ''active'', CreatedAt = 101, UpdatedAt = 102\<rparr>,
              \<lparr>ID = 2, Name = ''Bob Smith'', Email = ''bob@company.com'',
               Status = ''active'', CreatedAt = 103, UpdatedAt = 104\<rparr>],
      clock = 104,
      server = \<lparr>users = fmupd 2 (Ref 1) (fmupd 1 (Ref 0) fmempty), nextID = 3,
                host = ''localhost'', port = 8080, timeout = 30 * Second, started = 100\<rparr>\<rparr>"

text \<open>
  \<open>world_twice\<close>: what \<^verbatim>\<open>createUser\<close> would make of \<open>world1\<close> (one user, stored
  under 1) if it were called again with the pointer the map already holds, which no
  caller does. One entity is then stored under the keys 1 and 2, with the \<^verbatim>\<open>ID\<close> 2
  (lemma \<open>createUser_stored_pointer\<close>).
\<close>

definition world_twice :: world where
  "world_twice =
     \<lparr>heap = [\<lparr>ID = 2, Name = ''Alice Johnson'', Email = ''alice@company.com'',
               Status = ''active'', CreatedAt = 103, UpdatedAt = 104\<rparr>],
      clock = 104,
      server = \<lparr>users = fmupd 2 (Ref 0) (fmupd 1 (Ref 0) fmempty), nextID = 3,
                host = ''localhost'', port = 8080, timeout = 30 * Second,
                started = 100\<rparr>\<rparr>"

text \<open>\<open>world_pending\<close>: after \<open>Create dan 1 1\<close> on \<open>world0\<close>.\<close>

definition world_pending :: world where
  "world_pending =
     \<lparr>heap = [\<lparr>ID = 1, Name = ''Dan Brown'', Email = ''dan@company.com'',
               Status = ''pending'', CreatedAt = 101, UpdatedAt = 102\<rparr>],
      clock = 102,
      server = \<lparr>users = fmupd 1 (Ref 0) fmempty, nextID = 2, host = ''localhost'',
                port = 8080, timeout = 30 * Second, started = 100\<rparr>\<rparr>"

text \<open>\<open>world_seeded\<close>: after \<^verbatim>\<open>seedData\<close> on \<open>world0\<close>, the clock advancing by 1 each time.\<close>

definition every_tick :: "nat \<Rightarrow> nat \<times> nat" where
  "every_tick i = (1, 1)"

definition world_seeded :: world where
  "world_seeded =
     \<lparr>heap = [\<lparr>ID = 1, Name = ''Alice Johnson'', Email = ''alice@company.com'',
               Status = ''active'', CreatedAt = 101, UpdatedAt = 102\<rparr>,
              \<lparr>ID = 2, Name = ''Bob Smith'', Email = ''bob@company.com'',
               Status = ''active'', CreatedAt = 103, UpdatedAt = 104\<rparr>,
              \<lparr>ID = 3, Name = ''Carol Davis'', Email = ''carol@company.com'',
               Status = ''inactive'', CreatedAt = 105, UpdatedAt = 106\<rparr>],
      clock = 106,
      server = \<lparr>users = fmupd 3 (Ref 2) (fmupd 2 (Ref 1) (fmupd 1 (Ref 0) fmempty)),
                nextID = 4, host = ''localhost'', port = 8080, timeout = 30 * Second,
                started = 100\<rparr>\<rparr>"

text \<open>\<open>stats_pending\<close>: what \<^verbatim>\<open>getStats\<close> returns on \<open>world_pending\<close>.\<close>

definition stats_pending :: ServerStats where
  "stats_pending =
     \<lparr>TotalUsers = 1, ActiveUsers = 0, InactiveUsers = 1, Uptime = 2, StartedAt = 100\<rparr>"

text \<open>\<open>world1_updated\<close>: after \<open>Update 1 set_inactive 5\<close> on \<open>world1\<close>.\<close>

definition world1_updated :: world where
  "world1_updated =
     \<lparr>heap = [\<lparr>ID = 1, Name = ''Alice Johnson'', Email = ''alice@company.com'',
               Status = ''inactive'', CreatedAt = 101, UpdatedAt = 107\<rparr>,
              \<lparr>ID = 0, Name = '''', Email = '''', Status = ''inactive'',
               CreatedAt = 0, UpdatedAt = 0\<rparr>],
      clock = 107,
      server = \<lparr>users = fmupd 1 (Ref 0) fmempty, nextID = 2, host = ''localhost'',
                port = 8080, timeout = 30 * Second, started = 100\<rparr>\<rparr>"

text \<open>
  \<open>rename\<close>: the effect of the assignment \<^verbatim>\<open>user.Name = "Mallory"\<close> on the entity.
  \<open>world1_renamed\<close>: \<open>world1\<close> after that assignment through the pointer \<open>Ref 0\<close>.
\<close>

definition rename :: "User \<Rightarrow> User" where
  "rename u = u\<lparr>Name := ''Mallory''\<rparr>"

definition world1_renamed :: world where
  "world1_renamed =
     \<lparr>heap = [\<lparr>ID = 1, Name = ''Mallory'', Email = ''alice@company.com'',
               Status = ''active'', CreatedAt = 101, UpdatedAt = 102\<rparr>],
      clock = 102,
      server = \<lparr>users = fmupd 1 (Ref 0) fmempty, nextID = 2, host = ''localhost'',
                port = 8080, timeout = 30 * Second, started = 100\<rparr>\<rparr>"

text \<open>A run of six calls on the new server.\<close>

definition ops0 :: "op list" where
  "ops0 = [OpCreate alice 1 1, OpUpdate 1 set_inactive 3, OpCreate bob 1 1,
           OpStats (\<lambda>k. 0) 2, OpList (\<lambda>k. nat (2 - k)), OpGet 2]"

text \<open>
  Two iteration orders of a map: by increasing key, and by decreasing key (for the
  keys up to 100).
\<close>

definition ascending :: "int \<Rightarrow> nat" where
  "ascending k = 0"

definition descending :: "int \<Rightarrow> nat" where
  "descending k = nat (100 - k)"

section \<open>What each method computes\<close>

lemma int_wrap_id: "- (2 ^ 63) \<le> x \<Longrightarrow> x \<le> max_int \<Longrightarrow> int_wrap x = x"
  by (simp add: int_wrap_def max_int_def)

lemma createUser_Nil: "createUser Nil d1 d2 w = Inl NilDereference"
  by (simp add: createUser_def)

lemma createUser_Ref:
  assumes "a < length (heap w)"
  shows "createUser (Ref a) d1 d2 w =
    Inr (Ref a,
      \<lparr>heap = (heap w)[a := (heap w ! a)\<lparr>ID := nextID (server w),
            CreatedAt := clock w + int d1, UpdatedAt := clock w + int d1 + int d2,
            Status := (if Status (heap w ! a) = '''' then ''active'' else Status (heap w ! a))\<rparr>],
       clock = clock w + int d1 + int d2,
       server = (server w)\<lparr>users := fmupd (nextID (server w)) (Ref a) (users (server w)),
                            nextID := int_wrap (nextID (server w) + 1)\<rparr>\<rparr>)"
  using assms
  by (cases w)
    (simp add: createUser_def set_nextID_def set_users_def time_Now_def field_get_def Let_def)

lemma updateUser_absent:
  "fmlookup (users (server w)) uid = None \<Longrightarrow> updateUser uid updates d w = Inr ((Nil, False), w)"
  by (simp add: updateUser_def)

lemma updateUser_found:
  assumes "fmlookup (users (server w)) uid = Some (Ref a)" and "a < length (heap w)"
    and "load (heap w) updates = Some c"
  shows "updateUser uid updates d w =
    Inr ((Ref a, True),
      w\<lparr>heap := (heap w)[a := (heap w ! a)
             \<lparr>Name := (if Name c \<noteq> '''' then Name c else Name (heap w ! a)),
              Email := (if Email c \<noteq> '''' then Email c else Email (heap w ! a)),
              Status := (if Status c \<noteq> '''' then Status c else Status (heap w ! a)),
              UpdatedAt := clock w + int d\<rparr>],
        clock := clock w + int d\<rparr>)"
proof (cases updates)
  case Nil
  then show ?thesis using assms by simp
next
  case (Ref b)
  then have b: "b < length (heap w)" "c = heap w ! b"
    using assms(3) by (auto split: if_splits)
  show ?thesis
  proof (cases "b = a")
    case True
    obtain i n e s t1 t2 where u: "heap w ! a =
        \<lparr>ID = i, Name = n, Email = e, Status = s, CreatedAt = t1, UpdatedAt = t2\<rparr>"
      by (cases "heap w ! a") auto
    show ?thesis using assms b Ref True u
      by (simp add: updateUser_def time_Now_def field_get_def Let_def)
  next
    case False
    then show ?thesis using assms b Ref
      by (simp add: updateUser_def time_Now_def field_get_def Let_def)
  qed
qed

lemma getAllUsers_eq: "getAllUsers rank w = (map snd (range_map (users (server w)) rank), w)"
proof -
  have "foldl (\<lambda>us e. us @ [snd e]) acc es = acc @ map snd es"
    for acc :: "ptr list" and es :: "(int \<times> ptr) list"
    by (induction es arbitrary: acc) simp_all
  then show ?thesis by (simp add: getAllUsers_def)
qed

subsection \<open>The order in which a map is visited\<close>

lemma mset_range_map: "mset (range_map m rank) = mset (sorted_list_of_fmap m)"
  by (simp add: range_map_def)

lemma set_sorted_list_of_fmap:
  "set (sorted_list_of_fmap m) = {(k, p). fmlookup m k = Some p}"
  by (auto simp: sorted_list_of_fmap_def fmlookup_dom_iff)

lemma set_range_map: "set (range_map m rank) = {(k, p). fmlookup m k = Some p}"
  by (simp add: range_map_def set_sorted_list_of_fmap)

lemma keys_sorted_list_of_fmap: "map fst (sorted_list_of_fmap m) = sorted_list_of_fset (fmdom m)"
  by (simp add: sorted_list_of_fmap_def comp_def)

lemma distinct_sorted_list_of_fset: "distinct (sorted_list_of_fset S)"
  by (simp add: sorted_list_of_fset.rep_eq)

lemma distinct_keys_range_map: "distinct (map fst (range_map m rank))"
proof -
  have "mset (map fst (range_map m rank)) = mset (sorted_list_of_fset (fmdom m))"
    using arg_cong [OF mset_range_map, of "image_mset fst" m rank]
    by (simp add: keys_sorted_list_of_fmap [symmetric])
  moreover have "distinct (sorted_list_of_fset (fmdom m))"
    by (rule distinct_sorted_list_of_fset)
  ultimately show ?thesis
    by (metis distinct_count_atmost_1 set_mset_mset)
qed

lemma length_range_map: "length (range_map m rank) = fcard (fmdom m)"
proof -
  have "length (range_map m rank) = length (sorted_list_of_fset (fmdom m))"
    by (simp add: range_map_def sorted_list_of_fmap_def)
  also have "\<dots> = fcard (fmdom m)"
    using distinct_card [OF distinct_sorted_list_of_fset, of "fmdom m"]
    by (simp add: fcard.rep_eq)
  finally show ?thesis .
qed

subsection \<open>The heap\<close>

lemma load_append:
  "load (h @ [u]) p = (if p = Ref (length h) then Some u else load h p)"
  by (cases p) (auto simp: nth_append)

lemma load_update:
  "load (h[a := v]) p = (if p = Ref a \<and> a < length h then Some v else load h p)"
  by (cases p) auto

lemma load_Some_iff: "load h p = Some u \<longleftrightarrow> (\<exists>a. p = Ref a \<and> a < length h \<and> u = h ! a)"
  by (cases p) auto

subsection \<open>Create and Update\<close>

lemma Create_eq:
  "Create c d1 d2 w =
    Inr (Ref (length (heap w)),
      \<lparr>heap = heap w @ [c\<lparr>ID := nextID (server w),
            CreatedAt := clock w + int d1, UpdatedAt := clock w + int d1 + int d2,
            Status := (if Status c = '''' then ''active'' else Status c)\<rparr>],
       clock = clock w + int d1 + int d2,
       server = (server w)\<lparr>users := fmupd (nextID (server w)) (Ref (length (heap w))) (users (server w)),
                            nextID := int_wrap (nextID (server w) + 1)\<rparr>\<rparr>)"
  by (simp add: Create_def new_User_def createUser_Ref)

lemma Update_absent:
  "fmlookup (users (server w)) uid = None \<Longrightarrow>
     Update uid c d w = Inr ((Nil, False), w\<lparr>heap := heap w @ [c]\<rparr>)"
  by (simp add: Update_def new_User_def updateUser_absent)

lemma Update_found:
  assumes "fmlookup (users (server w)) uid = Some (Ref a)" and "a < length (heap w)"
  shows "Update uid c d w =
    Inr ((Ref a, True),
      w\<lparr>heap := (heap w)[a := (heap w ! a)
             \<lparr>Name := (if Name c \<noteq> '''' then Name c else Name (heap w ! a)),
              Email := (if Email c \<noteq> '''' then Email c else Email (heap w ! a)),
              Status := (if Status c \<noteq> '''' then Status c else Status (heap w ! a)),
              UpdatedAt := clock w + int d\<rparr>] @ [c],
        clock := clock w + int d\<rparr>)"
proof -
  let ?w1 = "w\<lparr>heap := heap w @ [c]\<rparr>"
  have "updateUser uid (Ref (length (heap w))) d ?w1 =
    Inr ((Ref a, True),
      ?w1\<lparr>heap := (heap ?w1)[a := (heap ?w1 ! a)
             \<lparr>Name := (if Name c \<noteq> '''' then Name c else Name (heap ?w1 ! a)),
              Email := (if Email c \<noteq> '''' then Email c else Email (heap ?w1 ! a)),
              Status := (if Status c \<noteq> '''' then Status c else Status (heap ?w1 ! a)),
              UpdatedAt := clock ?w1 + int d\<rparr>],
        clock := clock ?w1 + int d\<rparr>)"
    using assms by (intro updateUser_found) simp_all
  then show ?thesis
    using assms by (simp add: Update_def new_User_def nth_append list_update_append)
qed

subsection \<open>The invariant is kept\<close>

lemma entry_ok_iff:
  "entry_ok w k p \<longleftrightarrow>
     (\<exists>a. p = Ref a \<and> a < length (heap w) \<and> ID (heap w ! a) = k \<and> 1 \<le> k
        \<and> k < nextID (server w) \<and> UpdatedAt (heap w ! a) \<le> clock w)"
  by (cases p) (simp_all add: entry_ok_def)

lemma store_invI:
  assumes "\<And>k p. fmlookup (users (server w)) k = Some p \<Longrightarrow> entry_ok w k p"
    and "1 \<le> nextID (server w)"
  shows "store_inv w"
  using assms by (simp add: store_inv_def fmpred_iff)

lemma store_invD:
  assumes "store_inv w"
  shows "fmlookup (users (server w)) k = Some p \<Longrightarrow> entry_ok w k p"
    and "1 \<le> nextID (server w)"
  using assms by (simp_all add: store_inv_def fmpred_iff)

lemma store_inv_NewServer: "store_inv (NewServer h p now)"
  by (simp add: store_inv_def NewServer_def)

lemma entry_ok_mono:
  assumes "entry_ok w k p"
    and "\<And>a. p = Ref a \<Longrightarrow> a < length (heap w) \<Longrightarrow> UpdatedAt (heap w ! a) \<le> clock w \<Longrightarrow>
           a < length (heap w') \<and> ID (heap w' ! a) = ID (heap w ! a)
           \<and> UpdatedAt (heap w' ! a) \<le> clock w'"
    and "nextID (server w) \<le> nextID (server w')"
  shows "entry_ok w' k p"
  using assms unfolding entry_ok_iff by force

lemma store_inv_Create:
  assumes "store_inv w" and "nextID (server w) < max_int"
  shows "\<exists>p w'. Create c d1 d2 w = Inr (p, w') \<and> store_inv w'
    \<and> returned_id p w' = [nextID (server w)]
    \<and> nextID (server w') = nextID (server w) + 1"
proof -
  let ?a = "length (heap w)"
  let ?n = "nextID (server w)"
  let ?u = "c\<lparr>ID := ?n, CreatedAt := clock w + int d1, UpdatedAt := clock w + int d1 + int d2,
            Status := (if Status c = '''' then ''active'' else Status c)\<rparr>"
  let ?w' = "\<lparr>heap = heap w @ [?u], clock = clock w + int d1 + int d2,
       server = (server w)\<lparr>users := fmupd ?n (Ref ?a) (users (server w)),
                            nextID := int_wrap (?n + 1)\<rparr>\<rparr>"
  have n1: "1 \<le> ?n" using assms(1) by (rule store_invD)
  have n: "int_wrap (?n + 1) = ?n + 1"
    using assms(2) n1 by (intro int_wrap_id) (simp_all add: max_int_def)
  have "store_inv ?w'"
  proof (rule store_invI)
    fix k p assume "fmlookup (users (server ?w')) k = Some p"
    then consider "k = ?n" "p = Ref ?a" | "k \<noteq> ?n" "fmlookup (users (server w)) k = Some p"
      by (auto split: if_splits)
    then show "entry_ok ?w' k p"
    proof cases
      case 1
      then show ?thesis using n1 n by (simp add: entry_ok_iff)
    next
      case 2
      from store_invD(1) [OF assms(1) 2(2)] show ?thesis
        by (rule entry_ok_mono) (simp_all add: n nth_append)
    qed
  next
    show "1 \<le> nextID (server ?w')" using n1 n by simp
  qed
  then show ?thesis
    unfolding Create_eq using n by simp
qed

lemma store_inv_Update:
  assumes "store_inv w"
  shows "\<exists>r w'. Update uid c d w = Inr (r, w') \<and> store_inv w'
    \<and> nextID (server w') = nextID (server w)"
proof (cases "fmlookup (users (server w)) uid")
  case None
  let ?w' = "w\<lparr>heap := heap w @ [c]\<rparr>"
  have "store_inv ?w'"
  proof (rule store_invI)
    fix k p assume "fmlookup (users (server ?w')) k = Some p"
    then have "entry_ok w k p" using assms by (simp add: store_invD)
    then show "entry_ok ?w' k p"
      by (rule entry_ok_mono) (simp_all add: nth_append)
  next
    show "1 \<le> nextID (server ?w')" using store_invD(2) [OF assms] by simp
  qed
  then show ?thesis using Update_absent [OF None, of c d] by auto
next
  case (Some p)
  from store_invD(1) [OF assms Some] obtain a where a: "p = Ref a" "a < length (heap w)"
    and ua: "UpdatedAt (heap w ! a) \<le> clock w"
    by (auto simp: entry_ok_iff)
  define u where "u = (heap w ! a)
             \<lparr>Name := (if Name c \<noteq> '''' then Name c else Name (heap w ! a)),
              Email := (if Email c \<noteq> '''' then Email c else Email (heap w ! a)),
              Status := (if Status c \<noteq> '''' then Status c else Status (heap w ! a)),
              UpdatedAt := clock w + int d\<rparr>"
  have u: "ID u = ID (heap w ! a)" "UpdatedAt u = clock w + int d"
    by (simp_all add: u_def)
  let ?w' = "w\<lparr>heap := (heap w)[a := u] @ [c], clock := clock w + int d\<rparr>"
  have "store_inv ?w'"
  proof (rule store_invI)
    fix k q assume "fmlookup (users (server ?w')) k = Some q"
    then have q: "entry_ok w k q" using assms by (simp add: store_invD)
    show "entry_ok ?w' k q"
    proof (rule entry_ok_mono [OF q])
      fix b assume b: "q = Ref b" "b < length (heap w)" "UpdatedAt (heap w ! b) \<le> clock w"
      then show "b < length (heap ?w') \<and> ID (heap ?w' ! b) = ID (heap w ! b)
           \<and> UpdatedAt (heap ?w' ! b) \<le> clock ?w'"
        using a(2) u by (simp add: nth_append nth_list_update)
    qed simp
  next
    show "1 \<le> nextID (server ?w')" using store_invD(2) [OF assms] by simp
  qed
  then show ?thesis
    using Update_found [OF Some [unfolded a(1)] a(2), of c d] by (auto simp: u_def)
qed

lemma store_inv_tick:
  assumes "store_inv w"
  shows "store_inv (w\<lparr>clock := clock w + int d\<rparr>)"
proof (rule store_invI)
  fix k p assume "fmlookup (users (server (w\<lparr>clock := clock w + int d\<rparr>))) k = Some p"
  then have "entry_ok w k p" using assms by (simp add: store_invD)
  then show "entry_ok (w\<lparr>clock := clock w + int d\<rparr>) k p"
    by (rule entry_ok_mono) simp_all
next
  show "1 \<le> nextID (server (w\<lparr>clock := clock w + int d\<rparr>))"
    using store_invD(2) [OF assms] by simp
qed

subsection \<open>The statistics\<close>

lemma count_loop_eq:
  assumes "\<forall>p \<in> set ps. load h p \<noteq> None"
    and "0 \<le> a" and "0 \<le> i" and "a + i + int (length ps) \<le> max_int"
  shows "count_loop h ps (a, i) =
    Inr (a + int (count_list (map (status_of h) ps) ''active''),
         i + int (length (filter (\<lambda>s. s \<noteq> ''active'') (map (status_of h) ps))))"
  using assms
proof (induction ps arbitrary: a i)
  case Nil
  then show ?case by simp
next
  case (Cons p ps)
  from Cons.prems(1) obtain u where u: "load h p = Some u" by auto
  have wa: "int_wrap (a + 1) = a + 1" and wi: "int_wrap (i + 1) = i + 1"
    using Cons.prems by (auto intro!: int_wrap_id simp: max_int_def)
  show ?case
  proof (cases "Status u = ''active''")
    case True
    have "count_loop h ps (a + 1, i) =
      Inr (a + 1 + int (count_list (map (status_of h) ps) ''active''),
           i + int (length (filter (\<lambda>s. s \<noteq> ''active'') (map (status_of h) ps))))"
      using Cons.prems by (intro Cons.IH) auto
    moreover have "status_of h p = ''active''" using u True by (simp add: status_of_def)
    ultimately show ?thesis using u True wa by simp
  next
    case False
    have "count_loop h ps (a, i + 1) =
      Inr (a + int (count_list (map (status_of h) ps) ''active''),
           i + 1 + int (length (filter (\<lambda>s. s \<noteq> ''active'') (map (status_of h) ps))))"
      using Cons.prems by (intro Cons.IH) auto
    moreover have "status_of h p \<noteq> ''active''" using u False by (simp add: status_of_def)
    ultimately show ?thesis using u False wi by simp
  qed
qed

lemma mset_statuses:
  "mset (map (status_of (heap w)) (map snd (range_map (users (server w)) rank))) = mset (statuses w)"
proof -
  have "mset (map (\<lambda>e. status_of (heap w) (snd e)) (range_map (users (server w)) rank))
      = mset (map (\<lambda>e. status_of (heap w) (snd e)) (sorted_list_of_fmap (users (server w))))"
    using arg_cong [OF mset_range_map, of "image_mset (\<lambda>e. status_of (heap w) (snd e))"]
    by simp
  then show ?thesis by (simp add: statuses_def comp_def)
qed

lemma count_list_mset: "count_list xs x = count (mset xs) x"
  by (induction xs) simp_all

lemma length_filter_mset: "length (filter P xs) = size (filter_mset P (mset xs))"
  by (induction xs) simp_all

lemma length_statuses: "int (length (statuses w)) = len_users w"
proof -
  have "length (statuses w) = length (sorted_list_of_fset (fmdom (users (server w))))"
    by (simp add: statuses_def sorted_list_of_fmap_def)
  also have "\<dots> = fcard (fmdom (users (server w)))"
    using distinct_card [OF distinct_sorted_list_of_fset, of "fmdom (users (server w))"]
    by (simp add: fcard.rep_eq)
  finally show ?thesis by (simp add: len_users_def)
qed

lemma getStats_eq:
  assumes "users_loaded w" and "len_users w \<le> max_int"
  shows "getStats rank d w =
    Inr (\<lparr>TotalUsers = int (length (statuses w)),
          ActiveUsers = int (count_list (statuses w) ''active''),
          InactiveUsers = int (length (filter (\<lambda>s. s \<noteq> ''active'') (statuses w))),
          Uptime = time_Sub (clock w + int d) (started (server w)),
          StartedAt = started (server w)\<rparr>,
         w\<lparr>clock := clock w + int d\<rparr>)"
proof -
  let ?ps = "map snd (range_map (users (server w)) rank)"
  have 1: "\<forall>p \<in> set ?ps. load (heap w) p \<noteq> None"
    using assms(1) by (auto simp: users_loaded_def fmpred_iff set_range_map)
  have 2: "0 + 0 + int (length ?ps) \<le> max_int"
    using assms(2) by (simp add: length_range_map len_users_def)
  have 3: "count_list (map (status_of (heap w)) ?ps) ''active'' = count_list (statuses w) ''active''"
    by (simp only: count_list_mset mset_statuses)
  have 4: "length (filter (\<lambda>s. s \<noteq> ''active'') (map (status_of (heap w)) ?ps))
      = length (filter (\<lambda>s. s \<noteq> ''active'') (statuses w))"
    by (simp only: length_filter_mset mset_statuses)
  have "count_loop (heap w) ?ps (0, 0) =
    Inr (int (count_list (statuses w) ''active''),
         int (length (filter (\<lambda>s. s \<noteq> ''active'') (statuses w))))"
    using count_loop_eq [OF 1 _ _ 2, unfolded 3 4] by simp
  then show ?thesis
    by (simp add: getStats_def time_Now_def length_statuses)
qed

lemma store_inv_users_loaded: "store_inv w \<Longrightarrow> users_loaded w"
  by (auto simp: store_inv_def users_loaded_def fmpred_iff entry_ok_def split: option.splits)

lemma users_loaded_heap_closed: "users_loaded w \<Longrightarrow> heap_closed w"
proof -
  have "load (heap w) p \<noteq> None \<Longrightarrow> allocated w p" for p
    by (cases p) (auto split: if_splits)
  then show "users_loaded w \<Longrightarrow> heap_closed w"
    by (auto simp: users_loaded_def heap_closed_def fmpred_iff)
qed

subsection \<open>Runs\<close>

lemma count_loop_returns:
  "\<forall>p \<in> set ps. load h p \<noteq> None \<Longrightarrow> \<exists>r. count_loop h ps (a, i) = Inr r"
  by (induction ps arbitrary: a i) auto

lemma getStats_returns:
  assumes "users_loaded w"
  shows "\<exists>st. getStats rank d w = Inr (st, w\<lparr>clock := clock w + int d\<rparr>)"
proof -
  have "\<forall>p \<in> set (map snd (range_map (users (server w)) rank)). load (heap w) p \<noteq> None"
    using assms by (auto simp: users_loaded_def fmpred_iff set_range_map)
  from count_loop_returns [OF this, of 0 0] obtain r where
    "count_loop (heap w) (map snd (range_map (users (server w)) rank)) (0, 0) = Inr r" ..
  then show ?thesis
    by (cases r) (simp add: getStats_def time_Now_def)
qed

lemma ids_from_Suc:
  "map (\<lambda>j. n + int j) [0..<Suc k] = n # map (\<lambda>j. n + 1 + int j) [0..<k]"
proof -
  have "map (\<lambda>j. n + int j) [0..<Suc k] = n # map (\<lambda>j. n + int j) (map Suc [0..<k])"
    by (simp only: upt_conv_Cons [of 0 "Suc k"] map_Suc_upt) simp
  then show ?thesis by (simp add: comp_def add.assoc)
qed

lemma apply_op_other:
  assumes "store_inv w" and "\<not> is_create x"
  shows "\<exists>w'. apply_op x w = Inr ([], w') \<and> store_inv w'
    \<and> nextID (server w') = nextID (server w)"
proof (cases x)
  case (OpCreate c d1 d2)
  then show ?thesis using assms by simp
next
  case (OpGet uid)
  then show ?thesis using assms by (simp add: getUser_def split: option.split)
next
  case (OpList rank)
  then show ?thesis using assms by (simp add: getAllUsers_eq)
next
  case (OpUpdate uid c d)
  from store_inv_Update [OF assms(1), of uid c d] show ?thesis
    using OpUpdate by auto
next
  case (OpStats rank d)
  from getStats_returns [OF store_inv_users_loaded [OF assms(1)], of rank d] show ?thesis
    using OpStats store_inv_tick [OF assms(1), of d] by auto
qed

lemma run_from:
  assumes "store_inv w" and "nextID (server w) + int (creates ops) \<le> max_int"
  shows "\<exists>w'. run ops w = Inr (map (\<lambda>j. nextID (server w) + int j) [0..<creates ops], w')
    \<and> store_inv w' \<and> nextID (server w') = nextID (server w) + int (creates ops)"
  using assms
proof (induction ops arbitrary: w)
  case Nil
  then show ?case by (simp add: creates_def)
next
  case (Cons x xs)
  show ?case
  proof (cases "is_create x")
    case True
    then obtain c d1 d2 where x: "x = OpCreate c d1 d2" by (cases x) auto
    have k: "creates (x # xs) = Suc (creates xs)" using True by (simp add: creates_def)
    have "nextID (server w) < max_int" using Cons.prems(2) k by simp
    from store_inv_Create [OF Cons.prems(1) this, of c d1 d2] obtain p w1 where
      1: "Create c d1 d2 w = Inr (p, w1)" "store_inv w1"
         "returned_id p w1 = [nextID (server w)]" "nextID (server w1) = nextID (server w) + 1"
      by blast
    have "nextID (server w1) + int (creates xs) \<le> max_int"
      using Cons.prems(2) k 1(4) by simp
    from Cons.IH [OF 1(2) this] obtain w' where
      2: "run xs w1 = Inr (map (\<lambda>j. nextID (server w1) + int j) [0..<creates xs], w')"
         "store_inv w'" "nextID (server w') = nextID (server w1) + int (creates xs)"
      by blast
    have "run (x # xs) w = Inr (map (\<lambda>j. nextID (server w) + int j) [0..<creates (x # xs)], w')"
      unfolding k ids_from_Suc using x 1 2(1) by simp
    then show ?thesis using 2 1(4) k by simp
  next
    case False
    have k: "creates (x # xs) = creates xs" using False by (simp add: creates_def)
    from apply_op_other [OF Cons.prems(1) False] obtain w1 where
      1: "apply_op x w = Inr ([], w1)" "store_inv w1" "nextID (server w1) = nextID (server w)"
      by blast
    have "nextID (server w1) + int (creates xs) \<le> max_int"
      using Cons.prems(2) k 1(3) by simp
    from Cons.IH [OF 1(2) this] obtain w' where
      2: "run xs w1 = Inr (map (\<lambda>j. nextID (server w1) + int j) [0..<creates xs], w')"
         "store_inv w'" "nextID (server w') = nextID (server w1) + int (creates xs)"
      by blast
    show ?thesis using 1 2 k by simp
  qed
qed

subsection \<open>How often a pointer is listed\<close>

lemma count_list_map_filter: "count_list (map f xs) y = length (filter (\<lambda>x. f x = y) xs)"
  by (induction xs) simp_all

lemma count_range_map_value:
  assumes "fmlookup m k = Some p" and "\<And>k'. fmlookup m k' = Some p \<Longrightarrow> k' = k"
  shows "count_list (map snd (range_map m rank)) p = 1"
proof -
  let ?es = "range_map m rank"
  let ?fs = "filter (\<lambda>e. snd e = p) ?es"
  have "distinct ?es"
    using distinct_keys_range_map [of m rank] by (simp add: distinct_map)
  then have "distinct ?fs" by simp
  then have c: "card (set ?fs) = length ?fs" by (rule distinct_card)
  have "set ?fs = {(k, p)}"
  proof (rule set_eqI)
    fix e :: "int \<times> ptr"
    obtain k' p' where e: "e = (k', p')" by (cases e)
    show "e \<in> set ?fs \<longleftrightarrow> e \<in> {(k, p)}"
    proof
      assume "e \<in> set ?fs"
      then have "fmlookup m k' = Some p" "p' = p"
        unfolding e by (simp_all add: set_range_map)
      then show "e \<in> {(k, p)}" using assms(2) [of k'] e by simp
    next
      assume "e \<in> {(k, p)}"
      then show "e \<in> set ?fs" using assms(1) by (simp add: set_range_map)
    qed
  qed
  then have "length ?fs = 1" using c by simp
  then show ?thesis by (simp only: count_list_map_filter)
qed

subsection \<open>Every enumeration of a map is an iteration order\<close>

lemma range_map_entries:
  "distinct (map fst (range_map m rank))
   \<and> set (range_map m rank) = {(k, p). fmlookup m k = Some p}
   \<and> map_of (range_map m rank) = fmlookup m"
proof -
  have "map_of (range_map m rank) k = fmlookup m k" for k
  proof (cases "fmlookup m k")
    case None
    then have "k \<notin> fst ` set (range_map m rank)"
      by (auto simp: set_range_map)
    then show ?thesis using None by (simp add: map_of_eq_None_iff)
  next
    case (Some p)
    then have "(k, p) \<in> set (range_map m rank)" by (simp add: set_range_map)
    then show ?thesis
      using Some distinct_keys_range_map [of m rank] by simp
  qed
  then show ?thesis
    using distinct_keys_range_map [of m rank] set_range_map [of m rank] by auto
qed

lemma map_position: "distinct ks \<Longrightarrow> map (position ks) ks = [0..<length ks]"
proof (induction ks)
  case Nil
  then show ?case by simp
next
  case (Cons k ks)
  then have "map (position (k # ks)) ks = map (\<lambda>x. Suc (position ks x)) ks"
    by (intro map_cong) auto
  also have "\<dots> = map Suc (map (position ks) ks)" by simp
  also have "\<dots> = map Suc [0..<length ks]" using Cons by simp
  also have "\<dots> = [Suc 0..<Suc (length ks)]" by (simp only: map_Suc_upt)
  finally have a: "map (position (k # ks)) ks = [Suc 0..<Suc (length ks)]" .
  have b: "position (k # ks) k = 0" by simp
  have "map (position (k # ks)) (k # ks) = position (k # ks) k # map (position (k # ks)) ks"
    by (simp only: list.map)
  also have "\<dots> = 0 # [Suc 0..<Suc (length ks)]" by (simp only: a b)
  also have "\<dots> = [0..<Suc (length ks)]"
    by (rule upt_conv_Cons [symmetric]) simp
  finally show ?case by (simp only: length_Cons)
qed

lemma position_inj:
  "x \<in> set ks \<Longrightarrow> y \<in> set ks \<Longrightarrow> position ks x = position ks y \<Longrightarrow> x = y"
  by (induction ks) (auto split: if_splits)

lemma filter_singleton:
  "distinct xs \<Longrightarrow> x \<in> set xs \<Longrightarrow> (\<And>y. y \<in> set xs \<Longrightarrow> P y \<longleftrightarrow> y = x) \<Longrightarrow> filter P xs = [x]"
proof (induction xs)
  case Nil
  then show ?case by simp
next
  case (Cons a xs)
  show ?case
  proof (cases "a = x")
    case True
    have "filter P xs = []"
      using Cons.prems True by (auto simp: filter_empty_conv)
    then show ?thesis using True Cons.prems(3) [of a] by simp
  next
    case False
    then have "filter P xs = [x]" using Cons by auto
    then show ?thesis using False Cons.prems(3) [of a] by simp
  qed
qed

lemma range_map_complete:
  assumes "distinct (map fst es)" and "set es = {(k, p). fmlookup m k = Some p}"
  shows "range_map m (position (map fst es)) = es"
proof -
  let ?f = "\<lambda>e. position (map fst es) (fst e)"
  let ?xs = "sorted_list_of_fmap m"
  have des: "distinct es" using assms(1) by (simp add: distinct_map)
  have dxs: "distinct ?xs"
    using distinct_sorted_list_of_fset [of "fmdom m"]
    by (simp add: keys_sorted_list_of_fmap [symmetric] distinct_map)
  have sets: "set es = set ?xs" using assms(2) by (simp add: set_sorted_list_of_fmap)
  have 1: "mset es = mset ?xs"
    using des dxs sets by (simp add: set_eq_iff_mset_eq_distinct)
  have inj: "e = e'" if "e \<in> set es" "e' \<in> set es" "?f e = ?f e'" for e e'
  proof -
    have "fst e = fst e'"
      using that by (intro position_inj [of _ "map fst es"]) auto
    then show ?thesis
      using that(1,2) assms(1) by (metis eq_key_imp_eq_value prod.collapse)
  qed
  have 2: "filter (\<lambda>x. ?f e = ?f x) es = filter (\<lambda>x. ?f e = ?f x) ?xs" if "e \<in> set es" for e
  proof -
    have eqv: "(?f e = ?f y) \<longleftrightarrow> y = e" if "y \<in> set es" for y
      using inj [OF \<open>e \<in> set es\<close> that] by auto
    have "filter (\<lambda>x. ?f e = ?f x) es = [e]"
      using des that eqv by (rule filter_singleton)
    moreover have "filter (\<lambda>x. ?f e = ?f x) ?xs = [e]"
      using dxs that [unfolded sets] eqv [unfolded sets] by (rule filter_singleton)
    ultimately show ?thesis by simp
  qed
  have "map ?f es = map (position (map fst es)) (map fst es)" by simp
  also have "\<dots> = [0..<length (map fst es)]" using assms(1) by (rule map_position)
  finally have 3: "sorted (map ?f es)" by simp
  show ?thesis
    unfolding range_map_def using 1 2 3 by (rule properties_for_sort_key)
qed

subsection \<open>The states a run reaches\<close>

lemma seedData_world0: "seedData every_tick world0 = Inr world_seeded"
  by code_simp

lemma len_users_less:
  assumes "store_inv w"
  shows "len_users w < nextID (server w)"
proof -
  let ?n = "nextID (server w)"
  have "fset (fmdom (users (server w))) \<subseteq> {1..<?n}"
  proof
    fix k assume "k \<in> fset (fmdom (users (server w)))"
    then obtain p where "fmlookup (users (server w)) k = Some p"
      by (auto simp: fmlookup_dom_iff)
    from store_invD(1) [OF assms this] show "k \<in> {1..<?n}"
      by (auto simp: entry_ok_iff)
  qed
  then have "card (fset (fmdom (users (server w)))) \<le> card {1..<?n}"
    by (intro card_mono) simp_all
  then show ?thesis
    using store_invD(2) [OF assms] by (simp add: len_users_def fcard.rep_eq)
qed

lemma run_reaches:
  assumes "int (creates ops) < max_int" and "run ops (NewServer h p now) = Inr (ids, w)"
  shows "store_inv w \<and> users_loaded w \<and> heap_closed w \<and> len_users w \<le> max_int"
proof -
  have "nextID (server (NewServer h p now)) + int (creates ops) \<le> max_int"
    using assms(1) by (simp add: NewServer_def)
  from run_from [OF store_inv_NewServer this] assms(2)
  have w: "store_inv w" "nextID (server w) = 1 + int (creates ops)"
    by (auto simp: NewServer_def)
  have "len_users w \<le> max_int"
    using len_users_less [OF w(1)] w(2) assms(1) by simp
  then show ?thesis
    using w(1) store_inv_users_loaded users_loaded_heap_closed by blast
qed

subsection \<open>Why Create passes a new object\<close>

lemma createUser_stored_pointer:
  "createUser (Ref 0) 1 1 world1 = Inr (Ref 0, world_twice)
   \<and> fmlookup (users (server world_twice)) 1 = Some (Ref 0)
   \<and> map_option ID (load (heap world_twice) (Ref 0)) = Some 2
   \<and> \<not> store_inv world_twice
   \<and> fst (getAllUsers ascending world_twice) = [Ref 0, Ref 0]"
  by code_simp

section \<open>Claims\<close>

text \<open>
  C1. Take any run of the store from \<^verbatim>\<open>NewServer\<close> (counter 1): \<open>Create\<close>,
  \<open>Update\<close>, \<open>Get\<close>, \<open>List\<close> and \<open>Stats\<close> calls in any order of completion,
  with any candidates, changes, clock readings and map iteration orders, and fewer
  than \<open>2^63 - 1\<close> \<open>Create\<close> calls (the counter is a 64-bit \<^verbatim>\<open>int\<close>). No call
  panics. The ids of the entities that the \<open>Create\<close> calls return are \<open>1, 2, ..., n\<close>
  in the order of the calls, so strictly increasing and pairwise different. After
  the run (every prefix of a run is a run, so after every operation) every pointer in
  the map points to an entity whose \<^verbatim>\<open>ID\<close> is its key, and the counter is greater
  than every id issued.
\<close>

theorem create_ids_unique_increasing:
  assumes "int (creates ops) < max_int"
  shows "\<exists>ids w. run ops (NewServer h p now) = Inr (ids, w)
    \<and> ids = map int [1..<Suc (creates ops)]
    \<and> sorted_wrt (<) ids \<and> distinct ids
    \<and> store_inv w
    \<and> (\<forall>k q. fmlookup (users (server w)) k = Some q \<longrightarrow>
          (\<exists>u. load (heap w) q = Some u \<and> ID u = k))
    \<and> nextID (server w) = 1 + int (creates ops)
    \<and> (\<forall>i \<in> set ids. i < nextID (server w))"
proof -
  let ?n = "creates ops"
  let ?w0 = "NewServer h p now"
  have n0: "nextID (server ?w0) = 1" by (simp add: NewServer_def)
  have "nextID (server ?w0) + int ?n \<le> max_int" using assms n0 by simp
  from run_from [OF store_inv_NewServer this] obtain w where
    w: "run ops ?w0 = Inr (map (\<lambda>j. nextID (server ?w0) + int j) [0..<?n], w)"
       "store_inv w" "nextID (server w) = nextID (server ?w0) + int ?n"
    by blast
  have "map (\<lambda>j. 1 + int j) [0..<?n] = map int (map Suc [0..<?n])" by simp
  also have "\<dots> = map int [1..<Suc ?n]" by (simp only: map_Suc_upt) simp
  finally have ids: "map (\<lambda>j. nextID (server ?w0) + int j) [0..<?n] = map int [1..<Suc ?n]"
    by (simp only: n0)
  have "sorted_wrt (<) [1..<Suc ?n]" by (rule sorted_wrt_upt)
  then have 1: "sorted_wrt (<) (map int [1..<Suc ?n])" by (simp only: sorted_wrt_map) simp
  have "distinct [1..<Suc ?n]" by (rule distinct_upt)
  then have 2: "distinct (map int [1..<Suc ?n])" by (simp only: distinct_map) simp
  have 3: "\<exists>u. load (heap w) q = Some u \<and> ID u = k" if "fmlookup (users (server w)) k = Some q" for k q
    using store_invD(1) [OF w(2) that] by (auto simp: entry_ok_def split: option.splits)
  have 4: "\<forall>i \<in> set (map int [1..<Suc ?n]). i < nextID (server w)"
    using w(3) n0 by auto
  have 5: "nextID (server w) = 1 + int ?n" using w(3) n0 by simp
  show ?thesis
    using w(1,2) 1 2 3 4 5 unfolding ids by blast
qed

theorem create_ids_unique_increasing_witness:
  "int (creates ops0) < max_int
   \<and> (\<exists>w. run ops0 (NewServer ''localhost'' 8080 100) = Inr ([1, 2], w)
        \<and> store_inv w \<and> nextID (server w) = 3)"
proof -
  have n: "creates ops0 = 2" by (simp add: creates_def ops0_def)
  have h: "int (creates ops0) < max_int" by (simp add: n max_int_def)
  from create_ids_unique_increasing [OF h, of "''localhost''" 8080 100] obtain ids w where
    w: "run ops0 (NewServer ''localhost'' 8080 100) = Inr (ids, w)"
       "ids = map int [1..<Suc (creates ops0)]" "store_inv w"
       "nextID (server w) = 1 + int (creates ops0)"
    by blast
  have ids: "ids = [1, 2]" using w(2) by (simp add: n upt_rec)
  show ?thesis using h w ids n by auto
qed

text \<open>
  C2. \<^verbatim>\<open>createUser\<close>, given a pointer to a candidate, returns that pointer, and
  the entity it points to afterwards has the counter's value as \<^verbatim>\<open>ID\<close> whatever the
  candidate's \<^verbatim>\<open>ID\<close> was, the two clock readings as \<^verbatim>\<open>CreatedAt\<close> and
  \<^verbatim>\<open>UpdatedAt\<close>, the status \<^verbatim>\<open>"active"\<close> if the candidate's status was empty and the
  candidate's status otherwise, and the candidate's name and email. The map holds the
  pointer under the new id, and the counter has been incremented (Go's \<^verbatim>\<open>++\<close>: by
  one, unless the counter was the largest \<^verbatim>\<open>int\<close>).
\<close>

theorem createUser_populates:
  assumes "load (heap w) user = Some c"
  shows "\<exists>w'. createUser user d1 d2 w = Inr (user, w')
    \<and> load (heap w') user =
        Some \<lparr>ID = nextID (server w), Name = Name c, Email = Email c,
              Status = (if Status c = '''' then ''active'' else Status c),
              CreatedAt = clock w + int d1, UpdatedAt = clock w + int d1 + int d2\<rparr>
    \<and> users (server w') = fmupd (nextID (server w)) user (users (server w))
    \<and> fmlookup (users (server w')) (nextID (server w)) = Some user
    \<and> nextID (server w') = int_wrap (nextID (server w) + 1)
    \<and> (- (2 ^ 63) \<le> nextID (server w) \<and> nextID (server w) < max_int \<longrightarrow>
          nextID (server w') = nextID (server w) + 1)"
proof -
  from assms obtain a where a: "user = Ref a" "a < length (heap w)" "c = heap w ! a"
    by (auto simp: load_Some_iff)
  have "int_wrap (nextID (server w) + 1) = nextID (server w) + 1"
    if "- (2 ^ 63) \<le> nextID (server w)" "nextID (server w) < max_int"
    using that by (intro int_wrap_id) simp_all
  then show ?thesis
    unfolding a(1) createUser_Ref [OF a(2)] using a(2,3) by (cases c) auto
qed

theorem createUser_populates_witness:
  "load (heap (world0\<lparr>heap := [bob\<lparr>ID := 77\<rparr>]\<rparr>)) (Ref 0) = Some (bob\<lparr>ID := 77\<rparr>)
   \<and> (\<exists>w'. createUser (Ref 0) 1 1 (world0\<lparr>heap := [bob\<lparr>ID := 77\<rparr>]\<rparr>) = Inr (Ref 0, w')
        \<and> load (heap w') (Ref 0) =
            Some \<lparr>ID = 1, Name = ''Bob Smith'', Email = ''bob@company.com'',
                  Status = ''active'', CreatedAt = 101, UpdatedAt = 102\<rparr>
        \<and> fmlookup (users (server w')) 1 = Some (Ref 0)
        \<and> nextID (server w') = 2)"
proof -
  let ?w = "world0\<lparr>heap := [bob\<lparr>ID := 77\<rparr>]\<rparr>"
  have h: "load (heap ?w) (Ref 0) = Some (bob\<lparr>ID := 77\<rparr>)" by simp
  have n: "nextID (server ?w) = 1" "clock ?w = 100"
    by (simp_all add: world0_def NewServer_def)
  from createUser_populates [OF h, of 1 1] obtain w' where
    "createUser (Ref 0) 1 1 ?w = Inr (Ref 0, w')"
    "load (heap w') (Ref 0) =
        Some \<lparr>ID = nextID (server ?w), Name = Name (bob\<lparr>ID := 77\<rparr>), Email = Email (bob\<lparr>ID := 77\<rparr>),
              Status = (if Status (bob\<lparr>ID := 77\<rparr>) = '''' then ''active'' else Status (bob\<lparr>ID := 77\<rparr>)),
              CreatedAt = clock ?w + int 1, UpdatedAt = clock ?w + int 1 + int 1\<rparr>"
    "fmlookup (users (server w')) (nextID (server ?w)) = Some (Ref 0)"
    "- (2 ^ 63) \<le> nextID (server ?w) \<and> nextID (server ?w) < max_int \<longrightarrow>
          nextID (server w') = nextID (server ?w) + 1"
    by blast
  then show ?thesis
    unfolding n using h by (auto simp: bob_def max_int_def)
qed

text \<open>
  C3. \<^verbatim>\<open>updateUser\<close> on an id the map holds, with a pointer to the changes: it
  returns the stored pointer and \<^verbatim>\<open>true\<close>; of name, email and status, each one that
  is not empty in the changes replaces the entity's, and each empty one leaves the
  entity's as it was; \<^verbatim>\<open>ID\<close> and \<^verbatim>\<open>CreatedAt\<close> stay; \<^verbatim>\<open>UpdatedAt\<close> becomes the clock
  reading taken in the call, which is no earlier than the previous \<^verbatim>\<open>UpdatedAt\<close>
  when that one was itself no later than the clock (as it is in every state reached
  from \<^verbatim>\<open>NewServer\<close>, by \<open>run_from\<close> and \<open>store_inv\<close>). In particular changes with
  only the status \<^verbatim>\<open>"inactive"\<close> leave name, email and \<^verbatim>\<open>CreatedAt\<close> and set the
  status to \<^verbatim>\<open>"inactive"\<close>.
\<close>

theorem updateUser_applies_provided_fields:
  assumes "fmlookup (users (server w)) uid = Some user"
    and "load (heap w) user = Some u"
    and "load (heap w) updates = Some c"
  shows "\<exists>w' u'. updateUser uid updates d w = Inr ((user, True), w')
    \<and> load (heap w') user = Some u'
    \<and> Name u' = (if Name c = '''' then Name u else Name c)
    \<and> Email u' = (if Email c = '''' then Email u else Email c)
    \<and> Status u' = (if Status c = '''' then Status u else Status c)
    \<and> ID u' = ID u \<and> CreatedAt u' = CreatedAt u
    \<and> UpdatedAt u' = clock w + int d
    \<and> (UpdatedAt u \<le> clock w \<longrightarrow> UpdatedAt u \<le> UpdatedAt u')
    \<and> (Name c = '''' \<and> Email c = '''' \<and> Status c = ''inactive'' \<longrightarrow>
          u' = u\<lparr>Status := ''inactive'', UpdatedAt := clock w + int d\<rparr>)
    \<and> server w' = server w"
proof -
  from assms(2) obtain a where a: "user = Ref a" "a < length (heap w)" "u = heap w ! a"
    by (auto simp: load_Some_iff)
  show ?thesis
    unfolding a(1) updateUser_found [OF assms(1) [unfolded a(1)] a(2) assms(3)]
    using a(2,3) by (cases u) auto
qed

theorem updateUser_applies_provided_fields_witness:
  "fmlookup (users (server (world1\<lparr>heap := heap world1 @ [set_inactive]\<rparr>))) 1 = Some (Ref 0)
   \<and> load (heap (world1\<lparr>heap := heap world1 @ [set_inactive]\<rparr>)) (Ref 0) =
       Some \<lparr>ID = 1, Name = ''Alice Johnson'', Email = ''alice@company.com'',
             Status = ''active'', CreatedAt = 101, UpdatedAt = 102\<rparr>
   \<and> load (heap (world1\<lparr>heap := heap world1 @ [set_inactive]\<rparr>)) (Ref 1) = Some set_inactive
   \<and> clock (world1\<lparr>heap := heap world1 @ [set_inactive]\<rparr>) = 102
   \<and> (\<exists>w'. updateUser 1 (Ref 1) 5 (world1\<lparr>heap := heap world1 @ [set_inactive]\<rparr>)
              = Inr ((Ref 0, True), w')
        \<and> load (heap w') (Ref 0) =
            Some \<lparr>ID = 1, Name = ''Alice Johnson'', Email = ''alice@company.com'',
                  Status = ''inactive'', CreatedAt = 101, UpdatedAt = 107\<rparr>)"
proof -
  let ?w = "world1\<lparr>heap := heap world1 @ [set_inactive]\<rparr>"
  let ?u = "\<lparr>ID = 1, Name = ''Alice Johnson'', Email = ''alice@company.com'',
             Status = ''active'', CreatedAt = 101, UpdatedAt = 102\<rparr>"
  have h1: "fmlookup (users (server ?w)) 1 = Some (Ref 0)" by (simp add: world1_def)
  have h2: "load (heap ?w) (Ref 0) = Some ?u" by (simp add: world1_def)
  have h3: "load (heap ?w) (Ref 1) = Some set_inactive" by (simp add: world1_def)
  have c: "Name set_inactive = '''' \<and> Email set_inactive = '''' \<and> Status set_inactive = ''inactive''"
    by (simp add: set_inactive_def)
  have t: "clock ?w = 102" by (simp add: world1_def)
  from updateUser_applies_provided_fields [OF h1 h2 h3, of 5] c obtain w' u' where
    "updateUser 1 (Ref 1) 5 ?w = Inr ((Ref 0, True), w')" "load (heap w') (Ref 0) = Some u'"
    "u' = ?u\<lparr>Status := ''inactive'', UpdatedAt := clock ?w + int 5\<rparr>"
    by blast
  then show ?thesis
    unfolding t using h1 h2 h3 by auto
qed

text \<open>
  C4. For every id that the map does not hold, \<^verbatim>\<open>getUser\<close> and \<^verbatim>\<open>updateUser\<close>
  each return \<^verbatim>\<open>nil, false\<close> (the not-found indicator, a value and not a panic),
  whatever the \<^verbatim>\<open>updates\<close> pointer is, and leave the whole state as it was: the map,
  the counter, every entity and the clock.
\<close>

theorem absent_id_not_found:
  assumes "fmlookup (users (server w)) uid = None"
  shows "getUser uid w = ((Nil, False), w) \<and> updateUser uid updates d w = Inr ((Nil, False), w)"
  using assms by (simp add: getUser_def updateUser_def)

theorem absent_id_not_found_witness:
  "fmlookup (users (server world0)) 99999 = None
   \<and> getUser 99999 world0 = ((Nil, False), world0)
   \<and> updateUser 99999 (Ref 0) 5 world0 = Inr ((Nil, False), world0)"
proof -
  have h: "fmlookup (users (server world0)) 99999 = None"
    by (simp add: world0_def NewServer_def)
  show ?thesis
    using h absent_id_not_found [OF h, of "Ref 0" 5] by simp
qed

text \<open>
  C5, as the specification states it, fails: \<^verbatim>\<open>getStats\<close> has no table of counts
  per status, only the two counters \<^verbatim>\<open>ActiveUsers\<close> and \<^verbatim>\<open>InactiveUsers\<close>. On a
  store whose one entity has the status \<^verbatim>\<open>"pending"\<close> the specification's table is
  \<open>pending \<mapsto> 1\<close>; \<^verbatim>\<open>getStats\<close> reports \<open>active \<mapsto> 0\<close> (a zero entry for a status
  not observed) and \<open>inactive \<mapsto> 1\<close> (a count for a status no entity has), and nothing
  for \<^verbatim>\<open>"pending"\<close>.
\<close>

theorem stats_per_status_counterexample:
  "Create dan 1 1 world0 = Inr (Ref 0, world_pending)
   \<and> getStats ascending 0 world_pending = Inr (stats_pending, world_pending)
   \<and> reported_status_counts stats_pending = [(''active'', 0), (''inactive'', 1)]
   \<and> spec_status_counts (statuses world_pending) = [(''pending'', 1)]
   \<and> reported_status_counts stats_pending \<noteq> spec_status_counts (statuses world_pending)"
proof -
  have 1: "Create dan 1 1 world0 = Inr (Ref 0, world_pending)" by code_simp
  have 2: "getStats ascending 0 world_pending = Inr (stats_pending, world_pending)" by code_simp
  have 3: "reported_status_counts stats_pending = [(''active'', 0), (''inactive'', 1)]"
    by (simp add: reported_status_counts_def stats_pending_def)
  have 4: "spec_status_counts (statuses world_pending) = [(''pending'', 1)]" by code_simp
  show ?thesis unfolding 3 4 using 1 2 by simp
qed

text \<open>
  C5, amended. In every state whose map holds no \<^verbatim>\<open>nil\<close> (and no more entries than
  an \<^verbatim>\<open>int\<close> counts), whatever the order in which the map is visited, \<^verbatim>\<open>getStats\<close>
  returns the number of entities as \<^verbatim>\<open>TotalUsers\<close>, the number of entities whose
  status is exactly \<^verbatim>\<open>"active"\<close> as \<^verbatim>\<open>ActiveUsers\<close>, and the number of all other
  entities as \<^verbatim>\<open>InactiveUsers\<close>; on an empty store all three are zero. It changes
  neither the server nor any entity: the state after the call is the state before
  it, with the clock read once.
\<close>

theorem getStats_counts:
  assumes "users_loaded w" and "len_users w \<le> max_int"
  shows "\<exists>st. getStats rank d w = Inr (st, w\<lparr>clock := clock w + int d\<rparr>)
    \<and> TotalUsers st = len_users w
    \<and> TotalUsers st = int (length (statuses w))
    \<and> ActiveUsers st = int (count_list (statuses w) ''active'')
    \<and> InactiveUsers st = int (length (filter (\<lambda>s. s \<noteq> ''active'') (statuses w)))
    \<and> (users (server w) = fmempty \<longrightarrow>
          TotalUsers st = 0 \<and> ActiveUsers st = 0 \<and> InactiveUsers st = 0)"
proof -
  have "statuses w = []" if "users (server w) = fmempty"
    using that by (simp add: statuses_def sorted_list_of_fmap_def sorted_list_of_fset.rep_eq)
  then show ?thesis
    unfolding getStats_eq [OF assms] by (auto simp: length_statuses [symmetric])
qed

theorem getStats_counts_witness:
  "users_loaded world_seeded \<and> len_users world_seeded \<le> max_int
   \<and> statuses world_seeded = [''active'', ''active'', ''inactive'']
   \<and> (\<exists>st. getStats descending 3 world_seeded = Inr (st, world_seeded\<lparr>clock := 109\<rparr>)
        \<and> TotalUsers st = 3 \<and> ActiveUsers st = 2 \<and> InactiveUsers st = 1)
   \<and> users_loaded world0 \<and> len_users world0 \<le> max_int \<and> users (server world0) = fmempty
   \<and> (\<exists>st. getStats descending 3 world0 = Inr (st, world0\<lparr>clock := 103\<rparr>)
        \<and> TotalUsers st = 0 \<and> ActiveUsers st = 0 \<and> InactiveUsers st = 0)"
proof -
  have h1: "users_loaded world_seeded" by code_simp
  have h2: "len_users world_seeded \<le> max_int" by code_simp
  have s: "statuses world_seeded = [''active'', ''active'', ''inactive'']" by code_simp
  have t: "clock world_seeded = 106" by (simp add: world_seeded_def)
  from getStats_counts [OF h1 h2, of descending 3] obtain st where
    "getStats descending 3 world_seeded = Inr (st, world_seeded\<lparr>clock := clock world_seeded + int 3\<rparr>)"
    "TotalUsers st = int (length (statuses world_seeded))"
    "ActiveUsers st = int (count_list (statuses world_seeded) ''active'')"
    "InactiveUsers st = int (length (filter (\<lambda>s. s \<noteq> ''active'') (statuses world_seeded)))"
    by blast
  then have 1: "\<exists>st. getStats descending 3 world_seeded = Inr (st, world_seeded\<lparr>clock := 109\<rparr>)
        \<and> TotalUsers st = 3 \<and> ActiveUsers st = 2 \<and> InactiveUsers st = 1"
    unfolding s t by auto
  have e1: "users_loaded world0" by code_simp
  have e2: "len_users world0 \<le> max_int" by code_simp
  have e3: "users (server world0) = fmempty" by (simp add: world0_def NewServer_def)
  have t0: "clock world0 = 100" by (simp add: world0_def NewServer_def)
  from getStats_counts [OF e1 e2, of descending 3] e3 obtain st0 where
    "getStats descending 3 world0 = Inr (st0, world0\<lparr>clock := clock world0 + int 3\<rparr>)"
    "TotalUsers st0 = 0 \<and> ActiveUsers st0 = 0 \<and> InactiveUsers st0 = 0"
    by blast
  then have 2: "\<exists>st. getStats descending 3 world0 = Inr (st, world0\<lparr>clock := 103\<rparr>)
        \<and> TotalUsers st = 0 \<and> ActiveUsers st = 0 \<and> InactiveUsers st = 0"
    unfolding t0 by auto
  show ?thesis using h1 h2 s 1 e1 e2 e3 2 by (intro conjI)
qed

text \<open>
  C6, as the specification states it, fails: the sequence \<^verbatim>\<open>getAllUsers\<close> returns
  holds the store's own pointers, so the entities seen through it are the store's
  entities. On a store with one user, list the users, then update the user's status:
  the entity read through the sequence listed before now has the new status and the
  new \<^verbatim>\<open>UpdatedAt\<close>. And an assignment to a field through the listed pointer changes
  the entity that \<^verbatim>\<open>getUser\<close> returns afterwards.
\<close>

theorem list_aliases_counterexample:
  "Create alice 1 1 world0 = Inr (Ref 0, world1)
   \<and> getAllUsers ascending world1 = ([Ref 0], world1)
   \<and> Update 1 set_inactive 5 world1 = Inr ((Ref 0, True), world1_updated)
   \<and> map (load (heap world1)) [Ref 0] =
       [Some \<lparr>ID = 1, Name = ''Alice Johnson'', Email = ''alice@company.com'',
              Status = ''active'', CreatedAt = 101, UpdatedAt = 102\<rparr>]
   \<and> map (load (heap world1_updated)) [Ref 0] =
       [Some \<lparr>ID = 1, Name = ''Alice Johnson'', Email = ''alice@company.com'',
              Status = ''inactive'', CreatedAt = 101, UpdatedAt = 107\<rparr>]
   \<and> map (load (heap world1_updated)) (fst (getAllUsers ascending world1))
       \<noteq> map (load (heap world1)) (fst (getAllUsers ascending world1))
   \<and> field_set (hd (fst (getAllUsers ascending world1))) rename world1 = Inr world1_renamed
   \<and> getUser 1 world1_renamed = ((Ref 0, True), world1_renamed)
   \<and> load (heap world1_renamed) (Ref 0) =
       Some \<lparr>ID = 1, Name = ''Mallory'', Email = ''alice@company.com'',
             Status = ''active'', CreatedAt = 101, UpdatedAt = 102\<rparr>
   \<and> world1_renamed \<noteq> world1"
proof -
  have 1: "getAllUsers ascending world1 = ([Ref 0], world1)" by code_simp
  have 2: "Update 1 set_inactive 5 world1 = Inr ((Ref 0, True), world1_updated)" by code_simp
  have 3: "field_set (Ref 0) rename world1 = Inr world1_renamed" by code_simp
  have 4: "getUser 1 world1_renamed = ((Ref 0, True), world1_renamed)" by code_simp
  have 5: "world1_renamed \<noteq> world1" by (simp add: world1_def world1_renamed_def)
  have 6: "Create alice 1 1 world0 = Inr (Ref 0, world1)" by code_simp
  have 7: "map (load (heap world1)) [Ref 0] =
       [Some \<lparr>ID = 1, Name = ''Alice Johnson'', Email = ''alice@company.com'',
              Status = ''active'', CreatedAt = 101, UpdatedAt = 102\<rparr>]"
    by (simp add: world1_def)
  have 8: "map (load (heap world1_updated)) [Ref 0] =
       [Some \<lparr>ID = 1, Name = ''Alice Johnson'', Email = ''alice@company.com'',
              Status = ''inactive'', CreatedAt = 101, UpdatedAt = 107\<rparr>]"
    by (simp add: world1_updated_def)
  have 9: "load (heap world1_renamed) (Ref 0) =
       Some \<lparr>ID = 1, Name = ''Mallory'', Email = ''alice@company.com'',
             Status = ''active'', CreatedAt = 101, UpdatedAt = 102\<rparr>"
    by (simp add: world1_renamed_def)
  show ?thesis
    unfolding 1 fst_conv 7 8 using 2 3 4 5 6 9 by simp
qed

text \<open>
  C6, amended. Let \<open>s\<close> be the sequence \<^verbatim>\<open>getAllUsers\<close> returns in a state without
  dangling pointers. The call leaves the state as it was, and \<open>s\<close> is a new sequence,
  not the store's map. Its elements are the store's own pointers. A following
  \<open>Create\<close> leaves every entity seen through \<open>s\<close> unchanged. A following \<open>Update\<close>
  of an id the store holds changes the entity of that id as seen through \<open>s\<close> (its
  pointer is in \<open>s\<close>): the fields given in the changes and \<^verbatim>\<open>UpdatedAt\<close>; every
  other entity seen through \<open>s\<close> is unchanged. And an assignment \<open>f\<close> to fields
  through that pointer changes the store's entity of that id.
\<close>

theorem list_shares_entities:
  assumes "heap_closed w" and "getAllUsers rank w = (s, w0)"
  shows "w0 = w
    \<and> (\<exists>p w'. Create c d1 d2 w0 = Inr (p, w')
          \<and> (\<forall>q \<in> set s. load (heap w') q = load (heap w) q))
    \<and> (\<forall>user u. fmlookup (users (server w)) uid = Some user \<and> load (heap w) user = Some u \<longrightarrow>
          user \<in> set s
          \<and> (\<exists>w'. Update uid ch d w0 = Inr ((user, True), w')
                \<and> load (heap w') user =
                    Some (u\<lparr>Name := (if Name ch \<noteq> '''' then Name ch else Name u),
                            Email := (if Email ch \<noteq> '''' then Email ch else Email u),
                            Status := (if Status ch \<noteq> '''' then Status ch else Status u),
                            UpdatedAt := clock w + int d\<rparr>)
                \<and> (\<forall>q \<in> set s. q \<noteq> user \<longrightarrow> load (heap w') q = load (heap w) q))
          \<and> (\<exists>w'. field_set user f w0 = Inr w'
                \<and> getUser uid w' = ((user, True), w')
                \<and> load (heap w') user = Some (f u)))"
proof -
  from assms(2) have w0: "w0 = w" and s: "s = map snd (range_map (users (server w)) rank)"
    by (auto simp: getAllUsers_eq)
  have in_s: "q \<in> set s \<longleftrightarrow> (\<exists>k. fmlookup (users (server w)) k = Some q)" for q
  proof -
    have "q \<in> set s \<longleftrightarrow> (\<exists>e \<in> set (range_map (users (server w)) rank). snd e = q)"
      unfolding s by (simp add: image_iff) blast
    also have "\<dots> \<longleftrightarrow> (\<exists>k. fmlookup (users (server w)) k = Some q)"
      unfolding set_range_map by auto
    finally show ?thesis .
  qed
  have alloc: "allocated w q" if "q \<in> set s" for q
    using that assms(1) unfolding in_s heap_closed_def fmpred_iff by blast
  have keep: "load (h @ [x]) q = load h q" if "allocated w q" "length h = length (heap w)" for h x q
    using that by (cases q) (simp_all add: nth_append)
  have create: "\<exists>p w'. Create c d1 d2 w0 = Inr (p, w')
      \<and> (\<forall>q \<in> set s. load (heap w') q = load (heap w) q)"
    unfolding w0 Create_eq using alloc keep by simp
  have shared: "user \<in> set s
      \<and> (\<exists>w'. Update uid ch d w0 = Inr ((user, True), w')
            \<and> load (heap w') user =
                Some (u\<lparr>Name := (if Name ch \<noteq> '''' then Name ch else Name u),
                        Email := (if Email ch \<noteq> '''' then Email ch else Email u),
                        Status := (if Status ch \<noteq> '''' then Status ch else Status u),
                        UpdatedAt := clock w + int d\<rparr>)
            \<and> (\<forall>q \<in> set s. q \<noteq> user \<longrightarrow> load (heap w') q = load (heap w) q))
      \<and> (\<exists>w'. field_set user f w0 = Inr w'
            \<and> getUser uid w' = ((user, True), w')
            \<and> load (heap w') user = Some (f u))"
    if f: "fmlookup (users (server w)) uid = Some user" and l: "load (heap w) user = Some u"
    for user u
  proof -
    from l obtain a where a: "user = Ref a" "a < length (heap w)" "u = heap w ! a"
      by (auto simp: load_Some_iff)
    have 1: "user \<in> set s" unfolding in_s using f by blast
    have "load ((heap w)[a := x] @ [ch]) q = load (heap w) q"
      if "q \<in> set s" "q \<noteq> user" for q x
      using keep [OF alloc [OF that(1)], of "(heap w)[a := x]" ch] that(2) a(1)
      by (simp add: load_update)
    then have 2: "\<exists>w'. Update uid ch d w0 = Inr ((user, True), w')
        \<and> load (heap w') user =
            Some (u\<lparr>Name := (if Name ch \<noteq> '''' then Name ch else Name u),
                    Email := (if Email ch \<noteq> '''' then Email ch else Email u),
                    Status := (if Status ch \<noteq> '''' then Status ch else Status u),
                    UpdatedAt := clock w + int d\<rparr>)
        \<and> (\<forall>q \<in> set s. q \<noteq> user \<longrightarrow> load (heap w') q = load (heap w) q)"
      unfolding w0 a(1) Update_found [OF f [unfolded a(1)] a(2)]
      using a(2,3) by (simp add: nth_append)
    have 3: "\<exists>w'. field_set user f w0 = Inr w'
        \<and> getUser uid w' = ((user, True), w')
        \<and> load (heap w') user = Some (f u)"
      unfolding w0 a(1) using a(2,3) f [unfolded a(1)] by (simp add: getUser_def)
    show ?thesis using 1 2 3 by blast
  qed
  show ?thesis using w0 create shared by blast
qed

theorem list_shares_entities_witness:
  "heap_closed world1 \<and> getAllUsers ascending world1 = ([Ref 0], world1)
   \<and> fmlookup (users (server world1)) 1 = Some (Ref 0)
   \<and> load (heap world1) (Ref 0) =
       Some \<lparr>ID = 1, Name = ''Alice Johnson'', Email = ''alice@company.com'',
             Status = ''active'', CreatedAt = 101, UpdatedAt = 102\<rparr>
   \<and> (\<exists>w'. Update 1 set_inactive 5 world1 = Inr ((Ref 0, True), w')
        \<and> load (heap w') (Ref 0) =
            Some \<lparr>ID = 1, Name = ''Alice Johnson'', Email = ''alice@company.com'',
                  Status = ''inactive'', CreatedAt = 101, UpdatedAt = 107\<rparr>)
   \<and> (\<exists>w'. field_set (Ref 0) rename world1 = Inr w'
        \<and> getUser 1 w' = ((Ref 0, True), w')
        \<and> load (heap w') (Ref 0) =
            Some \<lparr>ID = 1, Name = ''Mallory'', Email = ''alice@company.com'',
                  Status = ''active'', CreatedAt = 101, UpdatedAt = 102\<rparr>)
   \<and> (\<exists>p w'. Create bob 1 1 world1 = Inr (p, w')
        \<and> load (heap w') (Ref 0) = load (heap world1) (Ref 0))"
proof -
  let ?u = "\<lparr>ID = 1, Name = ''Alice Johnson'', Email = ''alice@company.com'',
             Status = ''active'', CreatedAt = 101, UpdatedAt = 102\<rparr>"
  have h1: "heap_closed world1" by code_simp
  have h2: "getAllUsers ascending world1 = ([Ref 0], world1)" by code_simp
  have h3: "fmlookup (users (server world1)) 1 = Some (Ref 0)" by (simp add: world1_def)
  have h4: "load (heap world1) (Ref 0) = Some ?u" by (simp add: world1_def)
  have t: "clock world1 = 102" by (simp add: world1_def)
  note th = list_shares_entities [OF h1 h2, of bob 1 1 1 set_inactive 5 rename]
  from th obtain p w1 where
    c: "Create bob 1 1 world1 = Inr (p, w1)"
       "\<forall>q \<in> set [Ref 0]. load (heap w1) q = load (heap world1) q"
    by blast
  from th h3 h4 obtain w2 where
    u: "Update 1 set_inactive 5 world1 = Inr ((Ref 0, True), w2)"
       "load (heap w2) (Ref 0) =
          Some (?u\<lparr>Name := (if Name set_inactive \<noteq> '''' then Name set_inactive else Name ?u),
                   Email := (if Email set_inactive \<noteq> '''' then Email set_inactive else Email ?u),
                   Status := (if Status set_inactive \<noteq> '''' then Status set_inactive else Status ?u),
                   UpdatedAt := clock world1 + int 5\<rparr>)"
    by blast
  from th h3 h4 obtain w3 where
    r: "field_set (Ref 0) rename world1 = Inr w3" "getUser 1 w3 = ((Ref 0, True), w3)"
       "load (heap w3) (Ref 0) = Some (rename ?u)"
    by blast
  have "load (heap w2) (Ref 0) =
      Some \<lparr>ID = 1, Name = ''Alice Johnson'', Email = ''alice@company.com'',
            Status = ''inactive'', CreatedAt = 101, UpdatedAt = 107\<rparr>"
    using u(2) unfolding t by (simp add: set_inactive_def)
  moreover have "load (heap w3) (Ref 0) =
      Some \<lparr>ID = 1, Name = ''Mallory'', Email = ''alice@company.com'',
            Status = ''active'', CreatedAt = 101, UpdatedAt = 102\<rparr>"
    using r(3) by (simp add: rename_def)
  ultimately show ?thesis using h1 h2 h3 h4 u(1) r(1,2) c by auto
qed

text \<open>
  C7. \<open>Create\<close> on any state without dangling pointers returns a pointer to the new
  entity; \<^verbatim>\<open>getUser\<close> with that entity's id, called next, returns the same pointer
  and \<^verbatim>\<open>true\<close> and changes nothing, so the entity read through it is the one
  \<open>Create\<close> returned; and \<^verbatim>\<open>getAllUsers\<close>, called next, lists that pointer exactly
  once, whatever the order in which the map is visited.
\<close>

theorem create_then_get_and_list:
  assumes "heap_closed w"
  shows "\<exists>p w' u. Create c d1 d2 w = Inr (p, w') \<and> load (heap w') p = Some u
    \<and> getUser (ID u) w' = ((p, True), w')
    \<and> load (heap (snd (getUser (ID u) w'))) (fst (fst (getUser (ID u) w'))) = Some u
    \<and> count_list (fst (getAllUsers rank w')) p = 1
    \<and> snd (getAllUsers rank w') = w'"
proof -
  let ?a = "length (heap w)"
  let ?n = "nextID (server w)"
  let ?u = "c\<lparr>ID := ?n, CreatedAt := clock w + int d1, UpdatedAt := clock w + int d1 + int d2,
            Status := (if Status c = '''' then ''active'' else Status c)\<rparr>"
  let ?m = "fmupd ?n (Ref ?a) (users (server w))"
  let ?w' = "\<lparr>heap = heap w @ [?u], clock = clock w + int d1 + int d2,
       server = (server w)\<lparr>users := ?m, nextID := int_wrap (?n + 1)\<rparr>\<rparr>"
  have 1: "Create c d1 d2 w = Inr (Ref ?a, ?w')" by (rule Create_eq)
  have 2: "load (heap ?w') (Ref ?a) = Some ?u" by simp
  have 3: "getUser (ID ?u) ?w' = ((Ref ?a, True), ?w')" by (simp add: getUser_def)
  have fresh: "k' = ?n" if "fmlookup ?m k' = Some (Ref ?a)" for k'
  proof (rule ccontr)
    assume "k' \<noteq> ?n"
    then have "fmlookup (users (server w)) k' = Some (Ref ?a)" using that by simp
    then have "allocated w (Ref ?a)"
      using assms unfolding heap_closed_def fmpred_iff by blast
    then show False by simp
  qed
  have "count_list (map snd (range_map ?m rank)) (Ref ?a) = 1"
    by (rule count_range_map_value [of ?m ?n]) (simp, rule fresh)
  then have 4: "count_list (fst (getAllUsers rank ?w')) (Ref ?a) = 1"
    by (simp add: getAllUsers_eq)
  have 5: "snd (getAllUsers rank ?w') = ?w'" by (simp add: getAllUsers_eq)
  have 6: "load (heap (snd (getUser (ID ?u) ?w'))) (fst (fst (getUser (ID ?u) ?w'))) = Some ?u"
    unfolding 3 by simp
  show ?thesis using 1 2 3 4 5 6 by blast
qed

theorem create_then_get_and_list_witness:
  "heap_closed world1
   \<and> Create bob 1 1 world1 = Inr (Ref 1, world2)
   \<and> getUser 2 world2 = ((Ref 1, True), world2)
   \<and> count_list (fst (getAllUsers descending world2)) (Ref 1) = 1"
proof -
  have h: "heap_closed world1" by code_simp
  have c: "Create bob 1 1 world1 = Inr (Ref 1, world2)" by code_simp
  from create_then_get_and_list [OF h, of bob 1 1 descending] obtain p w' u where
    "Create bob 1 1 world1 = Inr (p, w')" "load (heap w') p = Some u"
    "getUser (ID u) w' = ((p, True), w')"
    "count_list (fst (getAllUsers descending w')) p = 1"
    by blast
  moreover have "load (heap world2) (Ref 1) = Some u \<Longrightarrow> ID u = 2" for u
    by (auto simp: world2_def)
  ultimately show ?thesis using h c by auto
qed

text \<open>
  C8, as the specification states it, fails: Go does not fix the order in which a map
  is visited, not even from one loop to the next in the same process, and
  \<^verbatim>\<open>getAllUsers\<close> lists the users in that order. On a store with two users, two
  calls with nothing in between can return \<open>[Ref 0, Ref 1]\<close> and \<open>[Ref 1, Ref 0]\<close>.
\<close>

theorem list_order_counterexample:
  "Create alice 1 1 world0 = Inr (Ref 0, world1)
   \<and> Create bob 1 1 world1 = Inr (Ref 1, world2)
   \<and> getAllUsers ascending world2 = ([Ref 0, Ref 1], world2)
   \<and> getAllUsers descending world2 = ([Ref 1, Ref 0], world2)
   \<and> fst (getAllUsers descending (snd (getAllUsers ascending world2)))
       \<noteq> fst (getAllUsers ascending world2)"
proof -
  have 1: "getAllUsers ascending world2 = ([Ref 0, Ref 1], world2)" by code_simp
  have 2: "getAllUsers descending world2 = ([Ref 1, Ref 0], world2)" by code_simp
  have 3: "fst (getAllUsers descending (snd (getAllUsers ascending world2))) = [Ref 1, Ref 0]"
    by (simp only: 1 2 snd_conv fst_conv)
  have 4: "fst (getAllUsers ascending world2) = [Ref 0, Ref 1]"
    by (simp only: 1 fst_conv)
  have 5: "Create alice 1 1 world0 = Inr (Ref 0, world1)" by code_simp
  have 6: "Create bob 1 1 world1 = Inr (Ref 1, world2)" by code_simp
  have "[Ref 1, Ref 0] \<noteq> [Ref 0, Ref 1]" by simp
  then show ?thesis using 1 2 5 6 unfolding 3 4 by (intro conjI)
qed

text \<open>
  C8, amended. In every state, two calls of \<^verbatim>\<open>getAllUsers\<close> with nothing in between
  return the same pointers, each as often (so sequences of the same length that are
  permutations of each other), whatever the two orders in which the map is visited;
  the first call leaves the state as it was. The order of the two sequences need not
  be the same.
\<close>

theorem list_twice_same_content:
  "snd (getAllUsers r1 w) = w
   \<and> mset (fst (getAllUsers r2 (snd (getAllUsers r1 w)))) = mset (fst (getAllUsers r1 w))
   \<and> length (fst (getAllUsers r2 (snd (getAllUsers r1 w)))) = length (fst (getAllUsers r1 w))"
proof -
  have "mset (map snd (range_map (users (server w)) r)) =
      image_mset snd (mset (sorted_list_of_fmap (users (server w))))" for r
    using arg_cong [OF mset_range_map, of "image_mset snd" "users (server w)" r]
    by simp
  then have "mset (map snd (range_map (users (server w)) r2))
      = mset (map snd (range_map (users (server w)) r1))"
    by (simp only:)
  then show ?thesis
    by (simp add: getAllUsers_eq length_range_map)
qed

text \<open>
  C9. In every state whose map holds no \<^verbatim>\<open>nil\<close> (and no more entries than an
  \<^verbatim>\<open>int\<close> counts), whatever the order in which the map is visited, \<^verbatim>\<open>getStats\<close>
  returns statistics with \<^verbatim>\<open>TotalUsers = ActiveUsers + InactiveUsers\<close>:
  \<^verbatim>\<open>InactiveUsers\<close> is the number of entities whose status is not exactly
  \<^verbatim>\<open>"active"\<close>, whatever else it is.
\<close>

theorem stats_total_is_active_plus_inactive:
  assumes "users_loaded w" and "len_users w \<le> max_int"
  shows "\<exists>st w'. getStats rank d w = Inr (st, w')
    \<and> TotalUsers st = ActiveUsers st + InactiveUsers st
    \<and> InactiveUsers st = int (length (filter (\<lambda>s. s \<noteq> ''active'') (statuses w)))"
proof -
  have "length (statuses w) =
      count_list (statuses w) ''active'' + length (filter (\<lambda>s. s \<noteq> ''active'') (statuses w))"
    using sum_length_filter_compl [of "\<lambda>s. s = ''active''" "statuses w"]
    by (simp add: count_list_map_filter [of "\<lambda>s. s", simplified])
  then show ?thesis
    unfolding getStats_eq [OF assms] by simp
qed

theorem stats_total_is_active_plus_inactive_witness:
  "users_loaded world_pending \<and> len_users world_pending \<le> max_int
   \<and> statuses world_pending = [''pending'']
   \<and> (\<exists>st w'. getStats descending 0 world_pending = Inr (st, w')
        \<and> TotalUsers st = ActiveUsers st + InactiveUsers st \<and> InactiveUsers st = 1)"
proof -
  have h1: "users_loaded world_pending" by code_simp
  have h2: "len_users world_pending \<le> max_int" by code_simp
  have s: "statuses world_pending = [''pending'']" by code_simp
  from stats_total_is_active_plus_inactive [OF h1 h2, of descending 0] obtain st w' where
    "getStats descending 0 world_pending = Inr (st, w')"
    "TotalUsers st = ActiveUsers st + InactiveUsers st"
    "InactiveUsers st = int (length (filter (\<lambda>s. s \<noteq> ''active'') (statuses world_pending)))"
    by blast
  then show ?thesis
    unfolding s using h1 h2 by auto
qed

text \<open>
  C10. \<^verbatim>\<open>updateUser\<close> on an id the map holds, with changes whose name, email and
  status are all empty: it still returns the stored pointer and \<^verbatim>\<open>true\<close>, and the
  entity is as before except for \<^verbatim>\<open>UpdatedAt\<close>, which is the new clock reading. The
  server's fields and every other entity are untouched.
\<close>

theorem updateUser_no_fields:
  assumes "fmlookup (users (server w)) uid = Some user"
    and "load (heap w) user = Some u"
    and "load (heap w) updates = Some c"
    and "Name c = ''''" and "Email c = ''''" and "Status c = ''''"
  shows "\<exists>w'. updateUser uid updates d w = Inr ((user, True), w')
    \<and> load (heap w') user = Some (u\<lparr>UpdatedAt := clock w + int d\<rparr>)
    \<and> server w' = server w
    \<and> (\<forall>p. p \<noteq> user \<longrightarrow> load (heap w') p = load (heap w) p)"
proof -
  from assms(2) obtain a where a: "user = Ref a" "a < length (heap w)" "u = heap w ! a"
    by (auto simp: load_Some_iff)
  show ?thesis
    unfolding a(1) updateUser_found [OF assms(1) [unfolded a(1)] a(2) assms(3)]
    using a(2,3) assms(4-6) by (auto simp: load_update)
qed

theorem updateUser_no_fields_witness:
  "fmlookup (users (server (world1\<lparr>heap := heap world1 @ [no_changes]\<rparr>))) 1 = Some (Ref 0)
   \<and> load (heap (world1\<lparr>heap := heap world1 @ [no_changes]\<rparr>)) (Ref 0) =
       Some \<lparr>ID = 1, Name = ''Alice Johnson'', Email = ''alice@company.com'',
             Status = ''active'', CreatedAt = 101, UpdatedAt = 102\<rparr>
   \<and> load (heap (world1\<lparr>heap := heap world1 @ [no_changes]\<rparr>)) (Ref 1) = Some no_changes
   \<and> Name no_changes = '''' \<and> Email no_changes = '''' \<and> Status no_changes = ''''
   \<and> (\<exists>w'. updateUser 1 (Ref 1) 5 (world1\<lparr>heap := heap world1 @ [no_changes]\<rparr>)
              = Inr ((Ref 0, True), w')
        \<and> load (heap w') (Ref 0) =
            Some \<lparr>ID = 1, Name = ''Alice Johnson'', Email = ''alice@company.com'',
                  Status = ''active'', CreatedAt = 101, UpdatedAt = 107\<rparr>
        \<and> server w' = server world1)"
proof -
  let ?w = "world1\<lparr>heap := heap world1 @ [no_changes]\<rparr>"
  let ?u = "\<lparr>ID = 1, Name = ''Alice Johnson'', Email = ''alice@company.com'',
             Status = ''active'', CreatedAt = 101, UpdatedAt = 102\<rparr>"
  have h1: "fmlookup (users (server ?w)) 1 = Some (Ref 0)" by (simp add: world1_def)
  have h2: "load (heap ?w) (Ref 0) = Some ?u" by (simp add: world1_def)
  have h3: "load (heap ?w) (Ref 1) = Some no_changes" by (simp add: world1_def)
  have c: "Name no_changes = ''''" "Email no_changes = ''''" "Status no_changes = ''''"
    by (simp_all add: no_changes_def)
  have t: "clock ?w = 102" "server ?w = server world1" by (simp_all add: world1_def)
  from updateUser_no_fields [OF h1 h2 h3 c, of 5] obtain w' where
    "updateUser 1 (Ref 1) 5 ?w = Inr ((Ref 0, True), w')"
    "load (heap w') (Ref 0) = Some (?u\<lparr>UpdatedAt := clock ?w + int 5\<rparr>)"
    "server w' = server ?w"
    by blast
  then show ?thesis
    unfolding t using h1 h2 h3 c by auto
qed

end
